theory Spec2Isabelle
  imports Main "HOL-Library.Word" "HOL-Library.Signed_Division"
begin

section \<open>Go values: positions, errors, panics, slices\<close>

text \<open>
  \<^verbatim>\<open>type Position = int32\<close>: a 32-bit word. \<open>+\<close> and \<open>-\<close> wrap; \<open>sint\<close> is the signed
  reading, which is what Go's comparisons on \<^verbatim>\<open>int32\<close> and the conversion \<^verbatim>\<open>int(p)\<close> see.
  The conversion \<^verbatim>\<open>Position(n)\<close> of an \<^verbatim>\<open>int\<close> truncates: \<open>word_of_int n\<close>.
\<close>

type_synonym Position = "32 word"

text \<open>
  Go's \<^verbatim>\<open>int\<close> is modelled as \<open>int\<close>; it is 64 bits wide on the platforms the tests run
  on, and \<open>int64\<close> writes the wrap-around out at the two sums of the source whose operands
  are not bounded by a length (\<^verbatim>\<open>int(b.base-b.drop)+b.next\<close> and \<^verbatim>\<open>b.next+diff\<close>). The
  other \<^verbatim>\<open>int\<close> operations of the source cannot leave the range: \<^verbatim>\<open>b.next % size\<close> and
  \<^verbatim>\<open>next + 1\<close> stay below a length, \<^verbatim>\<open>len(b.buf) - diff\<close> subtracts a positive 32-bit value
  from a length, and \<^verbatim>\<open>len(b.buf)-b.next\<close> is only read through \<^verbatim>\<open>Position(...)\<close>, which
  truncates to 32 bits whether or not the difference wrapped at 64.
\<close>

definition int64 :: "int \<Rightarrow> int" where
  "int64 x = signed_take_bit 63 x"

text \<open>
  The sentinel errors of the package, and the error \<^verbatim>\<open>iter\<close> builds with
  \<^verbatim>\<open>fmt.Errorf("%w: %v not in range [%v, %v)", ErrOutOfRange, start, bottom, upper)\<close>:
  \<open>Errorf e start bottom upper\<close> wraps \<open>e\<close> and carries the three positions it prints.
\<close>

datatype error =
    ErrOutOfRange
  | ErrBufferOverflow
  | ErrInvalidState
  | Errorf error Position Position Position

text \<open>\<^verbatim>\<open>errors.Is\<close>: the error itself, or an error it wraps.\<close>

fun errors_Is :: "error \<Rightarrow> error \<Rightarrow> bool" where
  "errors_Is (Errorf e s lo hi) target =
     (if Errorf e s lo hi = target then True else errors_Is e target)"
| "errors_Is e target = (e = target)"

text \<open>The run-time panics the source can raise: each is a branch of the model.\<close>

datatype panic =
    DivideByZero
  | IndexOutOfRange
  | SliceBoundsOutOfRange
  | MakeSliceLenOutOfRange
  | NilDereference

text \<open>
  A slice value is a view of an array. The model keeps two regions apart: the backing
  array of the ring buffer (\<^verbatim>\<open>b.buf\<close>, allocated once by \<^verbatim>\<open>make\<close>, so its length is its
  capacity), and arrays allocated later by \<^verbatim>\<open>make\<close> or by a growing \<^verbatim>\<open>append\<close>.
  \<^item> \<open>NilSlice\<close> is \<^verbatim>\<open>nil\<close>;
  \<^item> \<open>BufSlice lo hi\<close> is \<^verbatim>\<open>b.buf[lo:hi]\<close>: it shares the backing array, and what it holds
    is read from the array as it is at the time of the read;
  \<^item> \<open>NewSlice xs\<close> is a slice over a newly allocated array that holds \<open>xs\<close>.
\<close>

datatype 'a slice =
    NilSlice
  | BufSlice nat nat
  | NewSlice "'a list"

fun slice_len :: "'a slice \<Rightarrow> nat" where
  "slice_len NilSlice = 0"
| "slice_len (BufSlice lo hi) = hi - lo"
| "slice_len (NewSlice xs) = length xs"

text \<open>The items of a slice, read against the current contents \<open>mem\<close> of the backing array.\<close>

fun slice_items :: "'a list \<Rightarrow> 'a slice \<Rightarrow> 'a list" where
  "slice_items mem NilSlice = []"
| "slice_items mem (BufSlice lo hi) = take (hi - lo) (drop lo mem)"
| "slice_items mem (NewSlice xs) = xs"

text \<open>
  The slice expression \<^verbatim>\<open>b.buf[lo:hi]\<close> on the backing array: Go panics unless
  \<^verbatim>\<open>0 <= lo <= hi <= cap(b.buf)\<close>.
\<close>

definition slice_buf :: "'a list \<Rightarrow> int \<Rightarrow> int \<Rightarrow> panic + 'a slice" where
  "slice_buf mem lo hi =
     (if 0 \<le> lo \<and> lo \<le> hi \<and> hi \<le> int (length mem)
      then Inr (BufSlice (nat lo) (nat hi))
      else Inl SliceBoundsOutOfRange)"

text \<open>
  The builtin \<^verbatim>\<open>append(head, tail...)\<close>. With nothing to add it returns \<open>head\<close>. Otherwise
  it writes in place when the capacity of \<open>head\<close> suffices (for a view of the backing array
  the capacity runs to the end of the array, so the write lands in the backing array), and
  allocates a new array if not. It returns the backing array and the resulting slice.
\<close>

definition go_append :: "'a list \<Rightarrow> 'a slice \<Rightarrow> 'a slice \<Rightarrow> 'a list \<times> 'a slice" where
  "go_append mem head tail =
     (let ys = slice_items mem tail in
      if ys = [] then (mem, head)
      else (case head of
              NilSlice \<Rightarrow> (mem, NewSlice ys)
            | BufSlice lo hi \<Rightarrow>
                if hi + length ys \<le> length mem
                then (take hi mem @ ys @ drop (hi + length ys) mem, BufSlice lo (hi + length ys))
                else (mem, NewSlice (slice_items mem head @ ys))
            | NewSlice xs \<Rightarrow> (mem, NewSlice (xs @ ys))))"

section \<open>RingBuf\<close>

text \<open>
  \<^verbatim>\<open>type RingBuf[F any] struct { drop Position; buf []F; base Position; next int }\<close>.
  The field \<^verbatim>\<open>drop\<close> is \<open>drop_mark\<close> here (\<open>drop\<close> is a list function of HOL); \<open>buf\<close> is
  the contents of the backing array.
\<close>

record 'a RingBuf =
  drop_mark :: Position
  buf :: "'a list"
  base :: Position
  "next" :: int

text \<open>
  \<^verbatim>\<open>NewRingBuf(size)\<close>. \<^verbatim>\<open>make([]F, size)\<close> panics on a negative size and fills the array
  with the zero value of \<^verbatim>\<open>F\<close>, a parameter here. The source's \<^verbatim>\<open>size\<close> is \<open>sz\<close> (\<open>size\<close> is
  a function of HOL).
\<close>

definition NewRingBuf :: "'a \<Rightarrow> int \<Rightarrow> panic + 'a RingBuf" where
  "NewRingBuf zero sz =
     (if sz < 0 then Inl MakeSliceLenOutOfRange
      else Inr \<lparr>drop_mark = - 1,
                buf = replicate (nat sz) zero,
                base = word_of_int (- sz),
                next = sz\<rparr>)"

text \<open>\<^verbatim>\<open>Drop\<close> returns the buffer as the call leaves it, and the error (\<open>None\<close> is \<^verbatim>\<open>nil\<close>).\<close>

definition RingBuf_Drop :: "'a RingBuf \<Rightarrow> Position \<Rightarrow> 'a RingBuf \<times> error option" where
  "RingBuf_Drop b p =
     (if next b \<le> sint (p - base b) then (b, Some ErrOutOfRange)
      else (b\<lparr>drop_mark := p\<rparr>, None))"

text \<open>
  \<^verbatim>\<open>Append\<close>. \<^verbatim>\<open>%\<close> truncates towards zero (\<open>smod\<close>) and panics on a zero divisor; the
  indexed write panics out of range. Both panics come before the array is written.
\<close>

definition RingBuf_Append :: "'a RingBuf \<Rightarrow> 'a \<Rightarrow> panic + 'a RingBuf \<times> error option" where
  "RingBuf_Append b item =
     (let sz = int (length (buf b)) in
      if sz < int64 (sint (base b - drop_mark b) + next b) then Inr (b, Some ErrBufferOverflow)
      else if sz = 0 then Inl DivideByZero
      else
        let nxt = next b smod sz;
            b1 = (if nxt = 0 then b\<lparr>base := base b + word_of_int sz\<rparr> else b)
        in if nxt < 0 \<or> sz \<le> nxt then Inl IndexOutOfRange
           else Inr (b1\<lparr>buf := (buf b1)[nat nxt := item], next := nxt + 1\<rparr>, None))"

text \<open>
  \<^verbatim>\<open>iter\<close>, the range resolution shared by \<^verbatim>\<open>ToSlice\<close> and \<^verbatim>\<open>Iterator\<close>: head, tail and
  error. \<^verbatim>\<open>begin\<close> of the first branch is a \<^verbatim>\<open>Position\<close>, compared with \<^verbatim>\<open>Position(b.next)\<close>.
\<close>

definition RingBuf_iter ::
  "'a RingBuf \<Rightarrow> Position \<Rightarrow> panic + 'a slice \<times> 'a slice \<times> error option" where
  "RingBuf_iter b start =
     (let begin = start - base b in
      if 0 \<le> sint begin \<and> sint begin \<le> sint (word_of_int (next b) :: Position) then
        (case slice_buf (buf b) (sint begin) (next b) of
           Inl p \<Rightarrow> Inl p
         | Inr head \<Rightarrow> Inr (head, NilSlice, None))
      else
        let diff = sint (base b - start) in
        if 0 < diff \<and> int64 (next b + diff) \<le> int (length (buf b)) then
          (let begin = int (length (buf b)) - diff in
           case slice_buf (buf b) begin (int (length (buf b))) of
             Inl p \<Rightarrow> Inl p
           | Inr head \<Rightarrow>
               (case slice_buf (buf b) 0 (next b) of
                  Inl p \<Rightarrow> Inl p
                | Inr tail \<Rightarrow> Inr (head, tail, None)))
        else
          let bottom = base b - word_of_int (int (length (buf b)) - next b);
              upper = base b + word_of_int (next b)
          in Inr (NilSlice, NilSlice, Some (Errorf ErrOutOfRange start bottom upper)))"

text \<open>
  \<^verbatim>\<open>ToSlice\<close>: \<^verbatim>\<open>append(head, tail...)\<close> on the two segments. Since \<^verbatim>\<open>append\<close> may write
  into the array its first argument shares, the buffer is returned too.
\<close>

definition RingBuf_ToSlice ::
  "'a RingBuf \<Rightarrow> Position \<Rightarrow> panic + 'a RingBuf \<times> 'a slice \<times> error option" where
  "RingBuf_ToSlice b start =
     (case RingBuf_iter b start of
        Inl p \<Rightarrow> Inl p
      | Inr (head, tail, Some err) \<Rightarrow> Inr (b, NilSlice, Some err)
      | Inr (head, tail, None) \<Rightarrow>
          (let (mem, s) = go_append (buf b) head tail in Inr (b\<lparr>buf := mem\<rparr>, s, None)))"

section \<open>Iterator\<close>

record 'a Iterator =
  ss :: "'a slice list"
  slot :: int
  idx :: int

definition NewIterator :: "'a slice list \<Rightarrow> 'a Iterator" where
  "NewIterator slices = \<lparr>ss = slices, slot = 0, idx = - 1\<rparr>"

text \<open>\<^verbatim>\<open>RingBuf.Iterator\<close>: the iterator (\<open>None\<close> is the \<^verbatim>\<open>nil\<close> pointer) and the error.\<close>

definition RingBuf_Iterator ::
  "'a RingBuf \<Rightarrow> Position \<Rightarrow> panic + 'a Iterator option \<times> error option" where
  "RingBuf_Iterator b start =
     (case RingBuf_iter b start of
        Inl p \<Rightarrow> Inl p
      | Inr (head, tail, Some err) \<Rightarrow> Inr (None, Some err)
      | Inr (head, tail, None) \<Rightarrow> Inr (Some (NewIterator [head, tail]), None))"

text \<open>
  \<^verbatim>\<open>Scan\<close>: the iterator as the call leaves it, and the result. \<^verbatim>\<open>r.ss[r.slot]\<close> panics
  when \<^verbatim>\<open>r.slot\<close> is not an index of \<^verbatim>\<open>r.ss\<close>. The counters are bounded by the lengths
  they are compared with, so their increments do not wrap.
\<close>

definition Iterator_Scan :: "'a Iterator \<Rightarrow> panic + 'a Iterator \<times> bool" where
  "Iterator_Scan r =
     (let r1 = r\<lparr>idx := idx r + 1\<rparr> in
      if slot r1 < 0 \<or> int (length (ss r1)) \<le> slot r1 then Inl IndexOutOfRange
      else if idx r1 < int (slice_len (ss r1 ! nat (slot r1))) then Inr (r1, True)
      else
        let r2 = r1\<lparr>slot := slot r1 + 1\<rparr> in
        if slot r2 < int (length (ss r2)) \<and> 0 < slice_len (ss r2 ! nat (slot r2))
        then Inr (r2\<lparr>idx := 0\<rparr>, True)
        else Inr (r2, False))"

text \<open>\<^verbatim>\<open>Item\<close>: \<^verbatim>\<open>r.ss[r.slot][r.idx]\<close>, read from the memory as it is now.\<close>

definition Iterator_Item :: "'a list \<Rightarrow> 'a Iterator \<Rightarrow> panic + 'a" where
  "Iterator_Item mem r =
     (if slot r < 0 \<or> int (length (ss r)) \<le> slot r then Inl IndexOutOfRange
      else
        let s = ss r ! nat (slot r) in
        if idx r < 0 \<or> int (slice_len s) \<le> idx r then Inl IndexOutOfRange
        else Inr (slice_items mem s ! nat (idx r)))"

text \<open>
  \<^verbatim>\<open>Iterator.ToSlice\<close>: the loop \<^verbatim>\<open>for r.Scan() { ret = append(ret, r.Item()) }\<close>, with the
  items collected so far as the accumulator.
\<close>

function Iterator_ToSlice_loop :: "'a list \<Rightarrow> 'a Iterator \<Rightarrow> 'a list \<Rightarrow> panic + 'a list" where
  "Iterator_ToSlice_loop mem r ret =
     (case Iterator_Scan r of
        Inl p \<Rightarrow> Inl p
      | Inr (r', found) \<Rightarrow>
          if found then
            (case Iterator_Item mem r' of
               Inl p \<Rightarrow> Inl p
             | Inr x \<Rightarrow> Iterator_ToSlice_loop mem r' (ret @ [x]))
          else Inr ret)"
  by pat_completeness auto
termination
proof (relation "measures [\<lambda>(mem, r, ret). nat (int (length (ss r)) - slot r),
                            \<lambda>(mem, r, ret). nat (int (slice_len (ss r ! nat (slot r))) - idx r)]")
  show "wf (measures [\<lambda>(mem, r, ret). nat (int (length (ss r)) - slot r),
                      \<lambda>(mem, r, ret). nat (int (slice_len (ss r ! nat (slot r))) - idx r)])"
    by simp
next
  fix mem :: "'a list" and r :: "'a Iterator" and ret :: "'a list"
    and x2 :: "'a Iterator \<times> bool" and r' found x2a
  assume "Iterator_Scan r = Inr x2" "(r', found) = x2" "found" "Iterator_Item mem r' = Inr x2a"
  then show "((mem, r', ret @ [x2a]), (mem, r, ret))
      \<in> measures [\<lambda>(mem, r, ret). nat (int (length (ss r)) - slot r),
                   \<lambda>(mem, r, ret). nat (int (slice_len (ss r ! nat (slot r))) - idx r)]"
    by (auto simp: Iterator_Scan_def Let_def split: if_splits)
qed

declare Iterator_ToSlice_loop.simps [simp del]

text \<open>
  \<^verbatim>\<open>var ret []F\<close> stays \<^verbatim>\<open>nil\<close> when the loop appends nothing; otherwise \<^verbatim>\<open>append\<close> has
  allocated it.
\<close>

definition Iterator_ToSlice :: "'a list \<Rightarrow> 'a Iterator \<Rightarrow> panic + 'a slice" where
  "Iterator_ToSlice mem r =
     (case Iterator_ToSlice_loop mem r [] of
        Inl p \<Rightarrow> Inl p
      | Inr ret \<Rightarrow> Inr (if ret = [] then NilSlice else NewSlice ret))"

section \<open>SyncBuf\<close>

text \<open>
  \<^verbatim>\<open>type SyncBuf[F any] struct { mu sync.RWMutex; buf Buffer[F] }\<close>, here over a
  \<^verbatim>\<open>RingBuf\<close>. Calls are modelled one at a time, as the lock serialises a writer with
  every other call, so the lock itself has no state to model; \<open>sync_buf\<close> is the field
  \<^verbatim>\<open>buf\<close> (a \<^verbatim>\<open>RingBuf\<close> has a field of that name already).
\<close>

record 'a SyncBuf =
  sync_buf :: "'a RingBuf"

definition NewSyncBuf :: "'a RingBuf \<Rightarrow> 'a SyncBuf" where
  "NewSyncBuf b = \<lparr>sync_buf = b\<rparr>"

definition SyncBuf_Drop :: "'a SyncBuf \<Rightarrow> Position \<Rightarrow> 'a SyncBuf \<times> error option" where
  "SyncBuf_Drop c p =
     (case RingBuf_Drop (sync_buf c) p of (b', err) \<Rightarrow> (c\<lparr>sync_buf := b'\<rparr>, err))"

definition SyncBuf_Append :: "'a SyncBuf \<Rightarrow> 'a \<Rightarrow> panic + 'a SyncBuf \<times> error option" where
  "SyncBuf_Append c item =
     (case RingBuf_Append (sync_buf c) item of
        Inl p \<Rightarrow> Inl p
      | Inr (b', err) \<Rightarrow> Inr (c\<lparr>sync_buf := b'\<rparr>, err))"

text \<open>
  \<^verbatim>\<open>ret := make([]F, len(items)); copy(ret, items)\<close>: a new array that holds what
  \<open>items\<close> holds at the time of the copy.
\<close>

definition make_copy :: "'a list \<Rightarrow> 'a slice \<Rightarrow> 'a slice" where
  "make_copy mem items = NewSlice (slice_items mem items)"

definition SyncBuf_ToSlice ::
  "'a SyncBuf \<Rightarrow> Position \<Rightarrow> panic + 'a SyncBuf \<times> 'a slice \<times> error option" where
  "SyncBuf_ToSlice c start =
     (case RingBuf_ToSlice (sync_buf c) start of
        Inl p \<Rightarrow> Inl p
      | Inr (b', items, Some err) \<Rightarrow> Inr (c\<lparr>sync_buf := b'\<rparr>, NilSlice, Some err)
      | Inr (b', items, None) \<Rightarrow>
          Inr (c\<lparr>sync_buf := b'\<rparr>, make_copy (buf b') items, None))"

text \<open>
  \<^verbatim>\<open>SyncBuf.Iterator\<close> copies every segment of the iterator it got, in order. A \<^verbatim>\<open>nil\<close>
  iterator with a \<^verbatim>\<open>nil\<close> error would be dereferenced by \<^verbatim>\<open>iter.ss\<close>.
\<close>

definition SyncBuf_Iterator ::
  "'a SyncBuf \<Rightarrow> Position \<Rightarrow> panic + 'a Iterator option \<times> error option" where
  "SyncBuf_Iterator c start =
     (case RingBuf_Iterator (sync_buf c) start of
        Inl p \<Rightarrow> Inl p
      | Inr (it, Some err) \<Rightarrow> Inr (None, Some err)
      | Inr (None, None) \<Rightarrow> Inl NilDereference
      | Inr (Some it, None) \<Rightarrow>
          Inr (Some (NewIterator (map (make_copy (buf (sync_buf c))) (ss it))), None))"

section \<open>Call sequences\<close>

text \<open>
  The four calls of the \<^verbatim>\<open>Buffer\<close> interface, and what a caller observes of each, as the
  tests of the package check it: success, the failure (the sentinel that \<^verbatim>\<open>errors.Is\<close>
  finds), and for a read the number of items (\<^verbatim>\<open>len(items)\<close> for \<^verbatim>\<open>ToSlice\<close>,
  \<^verbatim>\<open>len(items.ToSlice())\<close> for \<^verbatim>\<open>Iterator\<close>).
\<close>

datatype 'a op =
    OpAppend 'a
  | OpDrop Position
  | OpToSlice Position
  | OpIterator Position

datatype observation =
    Done
  | Items nat
  | Failed error

fun sentinel :: "error \<Rightarrow> error" where
  "sentinel (Errorf e s lo hi) = sentinel e"
| "sentinel e = e"

fun step :: "'a RingBuf \<Rightarrow> 'a op \<Rightarrow> panic + 'a RingBuf \<times> observation" where
  "step b (OpAppend x) =
     (case RingBuf_Append b x of
        Inl p \<Rightarrow> Inl p
      | Inr (b', None) \<Rightarrow> Inr (b', Done)
      | Inr (b', Some err) \<Rightarrow> Inr (b', Failed (sentinel err)))"
| "step b (OpDrop p) =
     (case RingBuf_Drop b p of
        (b', None) \<Rightarrow> Inr (b', Done)
      | (b', Some err) \<Rightarrow> Inr (b', Failed (sentinel err)))"
| "step b (OpToSlice start) =
     (case RingBuf_ToSlice b start of
        Inl p \<Rightarrow> Inl p
      | Inr (b', items, None) \<Rightarrow> Inr (b', Items (slice_len items))
      | Inr (b', items, Some err) \<Rightarrow> Inr (b', Failed (sentinel err)))"
| "step b (OpIterator start) =
     (case RingBuf_Iterator b start of
        Inl p \<Rightarrow> Inl p
      | Inr (it, Some err) \<Rightarrow> Inr (b, Failed (sentinel err))
      | Inr (None, None) \<Rightarrow> Inl NilDereference
      | Inr (Some it, None) \<Rightarrow>
          (case Iterator_ToSlice (buf b) it of
             Inl p \<Rightarrow> Inl p
           | Inr items \<Rightarrow> Inr (b, Items (slice_len items))))"

text \<open>A sequence of calls: the buffer at the end and the observations, or the first panic.\<close>

fun run :: "'a RingBuf \<Rightarrow> 'a op list \<Rightarrow> panic + 'a RingBuf \<times> observation list" where
  "run b [] = Inr (b, [])"
| "run b (x # xs) =
     (case step b x of
        Inl p \<Rightarrow> Inl p
      | Inr (b', ob) \<Rightarrow>
          (case run b' xs of
             Inl p \<Rightarrow> Inl p
           | Inr (b'', obs) \<Rightarrow> Inr (b'', ob # obs)))"

text \<open>
  Translation of the position axis by \<open>k\<close> (modulo \<open>2 ^ 32\<close>): of a buffer, which holds the
  positions \<^verbatim>\<open>base\<close> and \<^verbatim>\<open>drop\<close>, and of the position a call is given.
\<close>

definition translate :: "Position \<Rightarrow> 'a RingBuf \<Rightarrow> 'a RingBuf" where
  "translate k b = b\<lparr>drop_mark := drop_mark b + k, base := base b + k\<rparr>"

fun shift :: "Position \<Rightarrow> 'a op \<Rightarrow> 'a op" where
  "shift k (OpAppend x) = OpAppend x"
| "shift k (OpDrop p) = OpDrop (p + k)"
| "shift k (OpToSlice start) = OpToSlice (start + k)"
| "shift k (OpIterator start) = OpIterator (start + k)"

section \<open>Well-formed buffers and the readable window\<close>

text \<open>
  The data model of a buffer: \<^verbatim>\<open>next\<close> counts the items written in the current generation,
  between 0 and the capacity, and the capacity fits a \<^verbatim>\<open>Position\<close>.
\<close>

definition well_formed :: "'a RingBuf \<Rightarrow> bool" where
  "well_formed b \<longleftrightarrow>
     0 \<le> next b \<and> next b \<le> int (length (buf b)) \<and> int (length (buf b)) < 2147483648"

text \<open>The bounds \<^verbatim>\<open>bottom\<close> and \<^verbatim>\<open>upper\<close> that \<^verbatim>\<open>iter\<close> computes for its error.\<close>

definition range_bottom :: "'a RingBuf \<Rightarrow> Position" where
  "range_bottom b = base b - word_of_int (int (length (buf b)) - next b)"

definition range_upper :: "'a RingBuf \<Rightarrow> Position" where
  "range_upper b = base b + word_of_int (next b)"

text \<open>
  The window of start positions from \<open>bottom\<close> to \<open>upper\<close>, both included. On 32-bit
  positions that wrap, "between" is: the signed distance from \<open>bottom\<close> up to \<open>start\<close> and the
  signed distance from \<open>start\<close> up to \<open>upper\<close> are both non-negative.
\<close>

definition in_window :: "'a RingBuf \<Rightarrow> Position \<Rightarrow> bool" where
  "in_window b start \<longleftrightarrow>
     0 \<le> sint (start - range_bottom b) \<and> 0 \<le> sint (range_upper b - start)"

text \<open>A view of the backing array that lies within it holds as many items as its length.\<close>

fun slice_within :: "'a list \<Rightarrow> 'a slice \<Rightarrow> bool" where
  "slice_within mem NilSlice = True"
| "slice_within mem (BufSlice lo hi) = (lo \<le> hi \<and> hi \<le> length mem)"
| "slice_within mem (NewSlice xs) = True"

section \<open>Invariant, calls through the wrapper, owned slices\<close>

text \<open>
  The invariant of a buffer made by \<^verbatim>\<open>NewRingBuf(n)\<close>: \<^verbatim>\<open>next\<close> is between 1 and \<open>n\<close>, and the
  backing array has \<open>n\<close> slots.
\<close>

definition ring_invariant :: "int \<Rightarrow> 'a RingBuf \<Rightarrow> bool" where
  "ring_invariant n b \<longleftrightarrow> 1 \<le> next b \<and> next b \<le> n \<and> int (length (buf b)) = n"

text \<open>
  A call through the wrapper, keeping only the wrapper's state: what the wrapped buffer is
  after the call. A sequence of such calls stops at the first panic.
\<close>

fun sync_step :: "'a SyncBuf \<Rightarrow> 'a op \<Rightarrow> panic + 'a SyncBuf" where
  "sync_step c (OpAppend x) =
     (case SyncBuf_Append c x of Inl p \<Rightarrow> Inl p | Inr (c', err) \<Rightarrow> Inr c')"
| "sync_step c (OpDrop p) = Inr (fst (SyncBuf_Drop c p))"
| "sync_step c (OpToSlice start) =
     (case SyncBuf_ToSlice c start of Inl p \<Rightarrow> Inl p | Inr (c', items, err) \<Rightarrow> Inr c')"
| "sync_step c (OpIterator start) =
     (case SyncBuf_Iterator c start of Inl p \<Rightarrow> Inl p | Inr (it, err) \<Rightarrow> Inr c)"

fun sync_run :: "'a SyncBuf \<Rightarrow> 'a op list \<Rightarrow> panic + 'a SyncBuf" where
  "sync_run c [] = Inr c"
| "sync_run c (x # xs) =
     (case sync_step c x of Inl p \<Rightarrow> Inl p | Inr c' \<Rightarrow> sync_run c' xs)"

text \<open>A slice is owned when it is not a view of the buffer's backing array.\<close>

fun owned :: "'a slice \<Rightarrow> bool" where
  "owned (BufSlice lo hi) = False"
| "owned s = True"

text \<open>The positions an error reports, translated with the rest.\<close>

fun translate_error :: "Position \<Rightarrow> error \<Rightarrow> error" where
  "translate_error k (Errorf e s lo hi) = Errorf (translate_error k e) (s + k) (lo + k) (hi + k)"
| "translate_error k e = e"

section \<open>Arithmetic of positions\<close>

text \<open>
  The signed value of a 32-bit sum or difference is the exact one, moved by \<open>2 ^ 32\<close> when it
  leaves the range. The lemmas below write this out with numerals, so that the proofs about
  the buffer are linear arithmetic with case splits.
\<close>

lemma int64_id:
  "- 9223372036854775808 \<le> x \<Longrightarrow> x < 9223372036854775808 \<Longrightarrow> int64 x = x"
  by (simp add: int64_def signed_take_bit_int_eq_self)

lemma sint_Position_range: "- 2147483648 \<le> sint (w :: Position) \<and> sint w < 2147483648"
  using sint_ge [of w] sint_lt [of w] by simp

lemma stb31_id: "- 2147483648 \<le> x \<Longrightarrow> x < 2147483648 \<Longrightarrow> signed_take_bit 31 (x::int) = x"
  by (simp add: signed_take_bit_int_eq_self)

lemma stb31_period: "signed_take_bit 31 (x + 4294967296 :: int) = signed_take_bit 31 x"
proof -
  have "(x + 2147483648 + 4294967296) mod 4294967296 = (x + 2147483648) mod 4294967296"
    by (rule mod_add_self2)
  then show ?thesis
    by (simp add: signed_take_bit_eq_take_bit_shift take_bit_eq_mod)
qed

lemma stb31_above:
  assumes "2147483648 \<le> x" "x < 6442450944"
  shows "signed_take_bit 31 (x::int) = x - 4294967296"
proof -
  have "signed_take_bit 31 x = signed_take_bit 31 (x - 4294967296 + 4294967296)" by simp
  also have "\<dots> = signed_take_bit 31 (x - 4294967296)" by (rule stb31_period)
  also have "\<dots> = x - 4294967296" using assms by (intro stb31_id) simp_all
  finally show ?thesis .
qed

lemma stb31_below:
  assumes "- 6442450944 \<le> x" "x < - 2147483648"
  shows "signed_take_bit 31 (x::int) = x + 4294967296"
proof -
  have "signed_take_bit 31 (x + 4294967296) = x + 4294967296"
    using assms by (intro stb31_id) simp_all
  then show ?thesis by (simp only: stb31_period)
qed

lemma stb31_cases:
  assumes "- 6442450944 \<le> x" "x < 6442450944"
  shows "signed_take_bit 31 (x::int) =
    (if x < - 2147483648 then x + 4294967296 else if 2147483648 \<le> x then x - 4294967296 else x)"
  using assms by (simp add: stb31_id stb31_above stb31_below)

lemma sint_Position_diff:
  "sint (a - b :: Position) =
    (if sint a - sint b < - 2147483648 then sint a - sint b + 4294967296
     else if 2147483648 \<le> sint a - sint b then sint a - sint b - 4294967296
     else sint a - sint b)"
proof -
  have "sint (a - b) = signed_take_bit 31 (sint a - sint b)"
    by (simp add: sint_word_ariths)
  also have "\<dots> = (if sint a - sint b < - 2147483648 then sint a - sint b + 4294967296
     else if 2147483648 \<le> sint a - sint b then sint a - sint b - 4294967296
     else sint a - sint b)"
    using sint_Position_range [of a] sint_Position_range [of b]
    by (intro stb31_cases) linarith+
  finally show ?thesis .
qed

lemma sint_Position_sum:
  "sint (a + b :: Position) =
    (if sint a + sint b < - 2147483648 then sint a + sint b + 4294967296
     else if 2147483648 \<le> sint a + sint b then sint a + sint b - 4294967296
     else sint a + sint b)"
proof -
  have "sint (a + b) = signed_take_bit 31 (sint a + sint b)"
    by (simp add: sint_word_ariths)
  also have "\<dots> = (if sint a + sint b < - 2147483648 then sint a + sint b + 4294967296
     else if 2147483648 \<le> sint a + sint b then sint a + sint b - 4294967296
     else sint a + sint b)"
    using sint_Position_range [of a] sint_Position_range [of b]
    by (intro stb31_cases) linarith+
  finally show ?thesis .
qed

lemma sint_Position_of_int_id:
  "- 2147483648 \<le> n \<Longrightarrow> n < 2147483648 \<Longrightarrow> sint (word_of_int n :: Position) = n"
  by (simp add: sint_sbintrunc' stb31_id)

lemma sint_Position_of_int_le:
  assumes "0 \<le> n" "0 \<le> sint (word_of_int n :: Position)"
  shows "sint (word_of_int n :: Position) \<le> n"
proof -
  have "sint (word_of_int n :: Position) = signed_take_bit 31 n"
    by (simp add: sint_sbintrunc')
  also have "\<dots> = take_bit 32 (n + 2147483648) - 2147483648"
    by (simp add: signed_take_bit_eq_take_bit_shift)
  finally have eq: "sint (word_of_int n :: Position) = take_bit 32 (n + 2147483648) - 2147483648" .
  have "take_bit 32 (n + 2147483648) \<le> n + 2147483648"
    using assms(1) by (simp add: take_bit_int_less_eq_self_iff)
  with eq show ?thesis by linarith
qed

lemma sint_minus_swap:
  "sint (b - a :: Position) = (if sint (a - b) = - 2147483648 then - 2147483648 else - sint (a - b))"
  using sint_Position_range [of a] sint_Position_range [of b]
  unfolding sint_Position_diff [of a b] sint_Position_diff [of b a]
  by (auto split: if_splits)


section \<open>Draining an iterator\<close>

text \<open>
  The loop of \<^verbatim>\<open>Iterator.ToSlice\<close> on an iterator over two segments, as \<^verbatim>\<open>Iterator\<close>
  builds it: it never panics, and it returns the items of the first segment followed by
  those of the second. The two lemmas follow the cursor through the second and the first
  segment; \<open>j\<close> counts the items of the segment already consumed.
\<close>

lemma drain_second_segment:
  "j < slice_len t \<Longrightarrow>
   Iterator_ToSlice_loop mem \<lparr>ss = [h, t], slot = 1, idx = int j\<rparr> ret
     = Inr (ret @ map (\<lambda>i. slice_items mem t ! i) [Suc j ..< slice_len t])"
proof (induction "slice_len t - j" arbitrary: j ret)
  case 0
  then show ?case by simp
next
  case (Suc k)
  show ?case
  proof (cases "Suc j < slice_len t")
    case True
    have scan: "Iterator_Scan \<lparr>ss = [h, t], slot = 1, idx = int j\<rparr>
        = Inr (\<lparr>ss = [h, t], slot = 1, idx = int (Suc j)\<rparr>, True)"
      using True by (simp add: Iterator_Scan_def Let_def add.commute)
    have item: "Iterator_Item mem \<lparr>ss = [h, t], slot = 1, idx = int (Suc j)\<rparr>
        = Inr (slice_items mem t ! Suc j)"
    proof -
      have "nat (1 + int j) = Suc j" by linarith
      with True show ?thesis by (simp add: Iterator_Item_def Let_def)
    qed
    have "k = slice_len t - Suc j" using Suc.hyps(2) by simp
    from Suc.hyps(1) [OF this True]
    have ih: "Iterator_ToSlice_loop mem \<lparr>ss = [h, t], slot = 1, idx = int (Suc j)\<rparr>
          (ret @ [slice_items mem t ! Suc j])
        = Inr ((ret @ [slice_items mem t ! Suc j])
               @ map (\<lambda>i. slice_items mem t ! i) [Suc (Suc j) ..< slice_len t])" .
    show ?thesis
      apply (subst Iterator_ToSlice_loop.simps)
      apply (simp only: scan item ih sum.case prod.case if_True)
      apply (simp add: upt_conv_Cons [OF True] del: upt_Suc)
      done
  next
    case False
    with Suc.prems have last: "Suc j = slice_len t" by simp
    have scan: "Iterator_Scan \<lparr>ss = [h, t], slot = 1, idx = int j\<rparr>
        = Inr (\<lparr>ss = [h, t], slot = 2, idx = int (Suc j)\<rparr>, False)"
      using last by (simp add: Iterator_Scan_def Let_def add.commute)
    show ?thesis
      apply (subst Iterator_ToSlice_loop.simps)
      apply (simp only: scan sum.case prod.case if_False)
      apply (simp add: last [symmetric])
      done
  qed
qed

lemma drain_first_segment:
  "j \<le> slice_len h \<Longrightarrow>
   Iterator_ToSlice_loop mem \<lparr>ss = [h, t], slot = 0, idx = int j - 1\<rparr> ret
     = Inr (ret @ map (\<lambda>i. slice_items mem h ! i) [j ..< slice_len h]
                @ map (\<lambda>i. slice_items mem t ! i) [0 ..< slice_len t])"
proof (induction "slice_len h - j" arbitrary: j ret)
  case 0
  then have last: "j = slice_len h" by simp
  show ?case
  proof (cases "0 < slice_len t")
    case True
    have scan: "Iterator_Scan \<lparr>ss = [h, t], slot = 0, idx = int j - 1\<rparr>
        = Inr (\<lparr>ss = [h, t], slot = 1, idx = 0\<rparr>, True)"
      using True last by (simp add: Iterator_Scan_def Let_def)
    have item: "Iterator_Item mem \<lparr>ss = [h, t], slot = 1, idx = 0\<rparr>
        = Inr (slice_items mem t ! 0)"
      using True by (simp add: Iterator_Item_def Let_def)
    have rest: "Iterator_ToSlice_loop mem \<lparr>ss = [h, t], slot = 1, idx = 0\<rparr>
          (ret @ [slice_items mem t ! 0])
        = Inr ((ret @ [slice_items mem t ! 0])
               @ map (\<lambda>i. slice_items mem t ! i) [Suc 0 ..< slice_len t])"
      using drain_second_segment [OF True, of mem h "ret @ [slice_items mem t ! 0]"] by simp
    show ?thesis
      apply (subst Iterator_ToSlice_loop.simps)
      apply (simp only: scan item rest sum.case prod.case if_True)
      apply (simp add: last upt_conv_Cons [OF True] del: upt_Suc)
      done
  next
    case False
    have scan: "Iterator_Scan \<lparr>ss = [h, t], slot = 0, idx = int j - 1\<rparr>
        = Inr (\<lparr>ss = [h, t], slot = 1, idx = int j\<rparr>, False)"
      using False last by (simp add: Iterator_Scan_def Let_def)
    show ?thesis
      apply (subst Iterator_ToSlice_loop.simps)
      apply (simp only: scan sum.case prod.case if_False)
      apply (use False last in simp)
      done
  qed
next
  case (Suc k)
  then have less: "j < slice_len h" by simp
  have scan: "Iterator_Scan \<lparr>ss = [h, t], slot = 0, idx = int j - 1\<rparr>
      = Inr (\<lparr>ss = [h, t], slot = 0, idx = int j\<rparr>, True)"
    using less by (simp add: Iterator_Scan_def Let_def)
  have item: "Iterator_Item mem \<lparr>ss = [h, t], slot = 0, idx = int j\<rparr>
      = Inr (slice_items mem h ! j)"
    using less by (simp add: Iterator_Item_def Let_def)
  have "k = slice_len h - Suc j" using Suc.hyps(2) by simp
  moreover have "Suc j \<le> slice_len h" using less by simp
  ultimately have ih: "Iterator_ToSlice_loop mem \<lparr>ss = [h, t], slot = 0, idx = int (Suc j) - 1\<rparr>
        (ret @ [slice_items mem h ! j])
      = Inr ((ret @ [slice_items mem h ! j])
             @ map (\<lambda>i. slice_items mem h ! i) [Suc j ..< slice_len h]
             @ map (\<lambda>i. slice_items mem t ! i) [0 ..< slice_len t])"
    by (rule Suc.hyps(1))
  then have ih': "Iterator_ToSlice_loop mem \<lparr>ss = [h, t], slot = 0, idx = int j\<rparr>
        (ret @ [slice_items mem h ! j])
      = Inr ((ret @ [slice_items mem h ! j])
             @ map (\<lambda>i. slice_items mem h ! i) [Suc j ..< slice_len h]
             @ map (\<lambda>i. slice_items mem t ! i) [0 ..< slice_len t])"
    by simp
  show ?case
    apply (subst Iterator_ToSlice_loop.simps)
    apply (simp only: scan item ih' sum.case prod.case if_True)
    apply (simp add: upt_conv_Cons [OF less] del: upt_Suc)
    done
qed

lemma slice_within_len: "slice_within mem s \<Longrightarrow> length (slice_items mem s) = slice_len s"
  by (cases s) auto

lemma drain_two_segments:
  assumes "slice_within mem h" and "slice_within mem t"
  shows "Iterator_ToSlice_loop mem (NewIterator [h, t]) []
     = Inr (slice_items mem h @ slice_items mem t)"
proof -
  have "Iterator_ToSlice_loop mem \<lparr>ss = [h, t], slot = 0, idx = int 0 - 1\<rparr> []
     = Inr ([] @ map (\<lambda>i. slice_items mem h ! i) [0 ..< slice_len h]
                @ map (\<lambda>i. slice_items mem t ! i) [0 ..< slice_len t])"
    by (rule drain_first_segment) simp
  moreover have "map (\<lambda>i. slice_items mem h ! i) [0 ..< slice_len h] = slice_items mem h"
    using slice_within_len [OF assms(1)] by (metis map_nth)
  moreover have "map (\<lambda>i. slice_items mem t ! i) [0 ..< slice_len t] = slice_items mem t"
    using slice_within_len [OF assms(2)] by (metis map_nth)
  ultimately show ?thesis
    by (simp add: NewIterator_def)
qed

section \<open>Reading a well-formed buffer\<close>

text \<open>
  With \<open>d\<close> the signed 32-bit offset \<open>start - base\<close>: \<^verbatim>\<open>iter\<close> resolves \<open>0 \<le> d \<le> next\<close> in
  the current generation, \<open>next - capacity \<le> d < 0\<close> across the wrap point, and fails
  elsewhere. The window from \<open>bottom\<close> to \<open>upper\<close> is \<open>next - capacity \<le> d \<le> next\<close>, and inside
  it \<open>upper - start\<close> is \<open>next - d\<close>.
\<close>

lemma iter_by_offset:
  assumes "well_formed b"
  shows "RingBuf_iter b start =
     (if 0 \<le> sint (start - base b) \<and> sint (start - base b) \<le> next b
      then Inr (BufSlice (nat (sint (start - base b))) (nat (next b)), NilSlice, None)
      else if sint (start - base b) < 0
              \<and> next b - int (length (buf b)) \<le> sint (start - base b)
      then Inr (BufSlice (nat (int (length (buf b)) + sint (start - base b))) (length (buf b)),
                BufSlice 0 (nat (next b)), None)
      else Inr (NilSlice, NilSlice,
                Some (Errorf ErrOutOfRange start (range_bottom b) (range_upper b))))"
proof -
  have wf: "0 \<le> next b" "next b \<le> int (length (buf b))" "int (length (buf b)) < 2147483648"
    using assms by (simp_all add: well_formed_def)
  have nx: "sint (word_of_int (next b) :: Position) = next b"
    using wf by (intro sint_Position_of_int_id) linarith+
  have rng: "- 2147483648 \<le> sint (base b - start)" "sint (base b - start) < 2147483648"
    "- 2147483648 \<le> sint (start - base b)" "sint (start - base b) < 2147483648"
    using sint_Position_range [of "base b - start"] sint_Position_range [of "start - base b"]
    by simp_all
  have wrap: "int64 (next b + sint (base b - start)) = next b + sint (base b - start)"
    using wf rng by (intro int64_id) linarith+
  have bk: "sint (base b - start) =
      (if sint (start - base b) = - 2147483648 then - 2147483648 else - sint (start - base b))"
    by (rule sint_minus_swap)
  show ?thesis
  proof (cases "sint (start - base b) = - 2147483648")
    case True
    with wf bk show ?thesis
      by (simp add: RingBuf_iter_def Let_def nx wrap slice_buf_def range_bottom_def range_upper_def)
  next
    case False
    with bk have bk2: "sint (base b - start) = - sint (start - base b)" by simp
    have n1: "nat (int (length (buf b)) + sint (start - base b))
            = nat (int (length (buf b)) - sint (base b - start))"
      by (simp add: bk2)
    have wrap2: "int64 (next b - sint (start - base b)) = next b - sint (start - base b)"
      using wf rng by (intro int64_id) linarith+
    show ?thesis
      using wf rng
      by (auto simp: RingBuf_iter_def Let_def nx wrap2 slice_buf_def range_bottom_def
          range_upper_def bk2)
  qed
qed

lemma in_window_offset:
  assumes "well_formed b"
  shows "in_window b start \<longleftrightarrow>
     next b - int (length (buf b)) \<le> sint (start - base b) \<and> sint (start - base b) \<le> next b"
    and "in_window b start \<Longrightarrow> sint (range_upper b - start) = next b - sint (start - base b)"
proof -
  have wf: "0 \<le> next b" "next b \<le> int (length (buf b))" "int (length (buf b)) < 2147483648"
    using assms by (simp_all add: well_formed_def)
  have nx: "sint (word_of_int (next b) :: Position) = next b"
    using wf by (intro sint_Position_of_int_id) linarith+
  have fr: "sint (word_of_int (int (length (buf b)) - next b) :: Position)
      = int (length (buf b)) - next b"
    using wf by (intro sint_Position_of_int_id) linarith+
  have rng: "- 2147483648 \<le> sint (start - base b)" "sint (start - base b) < 2147483648"
    using sint_Position_range [of "start - base b"] by simp_all
  have e1: "start - range_bottom b = (start - base b) + word_of_int (int (length (buf b)) - next b)"
    by (simp add: range_bottom_def)
  have e2: "range_upper b - start = word_of_int (next b) - (start - base b)"
    by (simp add: range_upper_def)
  have s1: "sint (start - range_bottom b) =
      (if sint (start - base b) + (int (length (buf b)) - next b) < - 2147483648
       then sint (start - base b) + (int (length (buf b)) - next b) + 4294967296
       else if 2147483648 \<le> sint (start - base b) + (int (length (buf b)) - next b)
       then sint (start - base b) + (int (length (buf b)) - next b) - 4294967296
       else sint (start - base b) + (int (length (buf b)) - next b))"
    by (simp only: e1 sint_Position_sum fr)
  have s2: "sint (range_upper b - start) =
      (if next b - sint (start - base b) < - 2147483648
       then next b - sint (start - base b) + 4294967296
       else if 2147483648 \<le> next b - sint (start - base b)
       then next b - sint (start - base b) - 4294967296
       else next b - sint (start - base b))"
    by (simp only: e2 sint_Position_diff nx)
  show "in_window b start \<longleftrightarrow>
     next b - int (length (buf b)) \<le> sint (start - base b) \<and> sint (start - base b) \<le> next b"
    unfolding in_window_def s1 s2 using wf rng by (auto split: if_splits)
  show "in_window b start \<Longrightarrow> sint (range_upper b - start) = next b - sint (start - base b)"
    unfolding in_window_def s1 s2 using wf rng by (auto split: if_splits)
qed

lemma go_append_nil: "go_append mem h NilSlice = (mem, h)"
  by (simp add: go_append_def)

lemma go_append_full:
  assumes "lo \<le> length mem"
  shows "\<exists>s. go_append mem (BufSlice lo (length mem)) (BufSlice 0 n) = (mem, s)
           \<and> slice_items mem s = drop lo mem @ take n mem
           \<and> slice_len s = length (slice_items mem s)"
proof (cases "take n mem = []")
  case True
  with assms show ?thesis by (simp add: go_append_def)
next
  case False
  then have "0 < length (take n mem)" by simp
  with False show ?thesis by (simp add: go_append_def Let_def)
qed

lemma read_in_window:
  fixes b :: "'a RingBuf"
  assumes "well_formed b" and "in_window b start"
  shows "\<exists>s it s'. RingBuf_ToSlice b start = Inr (b, s, None)
           \<and> RingBuf_Iterator b start = Inr (Some it, None)
           \<and> Iterator_ToSlice (buf b) it = Inr s'
           \<and> slice_items (buf b) s' = slice_items (buf b) s
           \<and> slice_len s' = slice_len s
           \<and> slice_len s = length (slice_items (buf b) s)
           \<and> int (slice_len s) = sint (range_upper b - start)"
proof -
  let ?d = "sint (start - base b)" and ?cap = "int (length (buf b))"
  have wf: "0 \<le> next b" "next b \<le> ?cap" "?cap < 2147483648"
    using assms(1) by (simp_all add: well_formed_def)
  have win: "next b - ?cap \<le> ?d" "?d \<le> next b"
    using assms by (simp_all add: in_window_offset(1))
  have len: "sint (range_upper b - start) = next b - ?d"
    using assms by (rule in_window_offset(2))
  show ?thesis
  proof (cases "0 \<le> ?d")
    case True
    let ?h = "BufSlice (nat ?d) (nat (next b)) :: 'a slice"
    have it: "RingBuf_iter b start = Inr (?h, NilSlice, None)"
      using True win by (simp add: iter_by_offset [OF assms(1)])
    have a: "nat ?d \<le> nat (next b)" using True win by linarith
    have c: "nat (next b) \<le> length (buf b)" using wf by linarith
    have within: "slice_within (buf b) ?h" "slice_within (buf b) (NilSlice :: 'a slice)"
      using a c by simp_all
    define items where "items = slice_items (buf b) ?h"
    have drain: "Iterator_ToSlice_loop (buf b) (NewIterator [?h, NilSlice]) [] = Inr items"
      using drain_two_segments [OF within] by (simp add: items_def)
    have l: "length items = slice_len ?h"
      using slice_within_len [OF within(1)]
      by (simp add: items_def del: slice_items.simps slice_len.simps)
    have ts: "RingBuf_ToSlice b start = Inr (b, ?h, None)"
      by (simp add: RingBuf_ToSlice_def it go_append_nil)
    have itr: "RingBuf_Iterator b start = Inr (Some (NewIterator [?h, NilSlice]), None)"
      by (simp add: RingBuf_Iterator_def it)
    let ?s' = "if items = [] then NilSlice else NewSlice items"
    have dr: "Iterator_ToSlice (buf b) (NewIterator [?h, NilSlice]) = Inr ?s'"
      by (simp add: Iterator_ToSlice_def drain)
    have "slice_items (buf b) ?s' = slice_items (buf b) ?h"
      by (simp add: items_def)
    moreover have "slice_len ?s' = slice_len ?h"
      using l by (cases "items = []") simp_all
    moreover have "slice_len ?h = length (slice_items (buf b) ?h)"
      using slice_within_len [OF within(1)]
      by (simp del: slice_items.simps slice_len.simps)
    moreover have "int (slice_len ?h) = sint (range_upper b - start)"
      using a True len wf by simp
    ultimately show ?thesis
      using ts itr dr by blast
  next
    case False
    let ?lo = "nat (?cap + ?d)"
    let ?h = "BufSlice ?lo (length (buf b)) :: 'a slice"
    let ?t = "BufSlice 0 (nat (next b)) :: 'a slice"
    have it: "RingBuf_iter b start = Inr (?h, ?t, None)"
      using False win by (simp add: iter_by_offset [OF assms(1)])
    have lo: "?lo \<le> length (buf b)" using False win wf by linarith
    have within: "slice_within (buf b) ?h" "slice_within (buf b) ?t"
      using lo wf by simp_all
    have drain: "Iterator_ToSlice_loop (buf b) (NewIterator [?h, ?t]) []
        = Inr (slice_items (buf b) ?h @ slice_items (buf b) ?t)"
      using within by (rule drain_two_segments)
    obtain s where s: "go_append (buf b) ?h ?t = (buf b, s)"
      "slice_items (buf b) s = drop ?lo (buf b) @ take (nat (next b)) (buf b)"
      "slice_len s = length (slice_items (buf b) s)"
      using go_append_full [OF lo] by blast
    have ts: "RingBuf_ToSlice b start = Inr (b, s, None)"
      by (simp add: RingBuf_ToSlice_def it s(1))
    have itr: "RingBuf_Iterator b start = Inr (Some (NewIterator [?h, ?t]), None)"
      by (simp add: RingBuf_Iterator_def it)
    have items: "slice_items (buf b) ?h @ slice_items (buf b) ?t = slice_items (buf b) s"
      by (simp add: s(2))
    have lo_less: "?lo < length (buf b)" using False win wf by linarith
    have nonempty: "slice_items (buf b) s \<noteq> []"
      using lo_less by (simp add: s(2))
    have dr: "Iterator_ToSlice (buf b) (NewIterator [?h, ?t]) = Inr (NewSlice (slice_items (buf b) s))"
      using nonempty by (simp add: Iterator_ToSlice_def drain items del: slice_items.simps)
    have "min (length (buf b)) (nat (next b)) = nat (next b)" using wf by linarith
    then have "length (slice_items (buf b) s) = (length (buf b) - ?lo) + nat (next b)"
      by (simp add: s(2))
    then have l: "int (length (slice_items (buf b) s)) = next b - ?d"
      using False lo win wf by linarith
    have "slice_items (buf b) (NewSlice (slice_items (buf b) s)) = slice_items (buf b) s"
      by simp
    moreover have "slice_len (NewSlice (slice_items (buf b) s)) = slice_len s"
      using s(3) by simp
    moreover have "int (slice_len s) = sint (range_upper b - start)"
      using l s(3) len by simp
    ultimately show ?thesis
      using ts itr dr s(3) by blast
  qed
qed

lemma read_out_of_window:
  assumes "well_formed b" and "\<not> in_window b start"
  shows "RingBuf_iter b start
      = Inr (NilSlice, NilSlice, Some (Errorf ErrOutOfRange start (range_bottom b) (range_upper b)))"
proof -
  have "0 \<le> next b" "next b \<le> int (length (buf b))"
    using assms(1) by (simp_all add: well_formed_def)
  with assms show ?thesis
    by (auto simp: iter_by_offset in_window_offset(1))
qed

section \<open>Drop\<close>



text \<open>
  Claim C5 says that a drop at or below the current marker is a no-op. It is not: the
  source assigns \<^verbatim>\<open>b.drop = drop\<close> whatever the marker was. After positions 0 to 2 are
  written and \<^verbatim>\<open>Drop(2)\<close>, the call \<^verbatim>\<open>Drop(0)\<close> succeeds and moves the marker back to 0.
\<close>

theorem Drop_below_marker_counterexample:
  "sint (0 :: Position) \<le> sint (drop_mark \<lparr>drop_mark = 2, buf = [1, 2, 3 :: nat], base = 0, next = 3\<rparr>)
   \<and> \<not> next \<lparr>drop_mark = 2, buf = [1, 2, 3 :: nat], base = 0, next = 3\<rparr>
        \<le> sint (0 - base \<lparr>drop_mark = 2, buf = [1, 2, 3 :: nat], base = 0, next = 3\<rparr>)
   \<and> RingBuf_Drop \<lparr>drop_mark = 2, buf = [1, 2, 3 :: nat], base = 0, next = 3\<rparr> 0
       = (\<lparr>drop_mark = 0, buf = [1, 2, 3], base = 0, next = 3\<rparr>, None)
   \<and> fst (RingBuf_Drop \<lparr>drop_mark = 2, buf = [1, 2, 3 :: nat], base = 0, next = 3\<rparr> 0)
       \<noteq> \<lparr>drop_mark = 2, buf = [1, 2, 3], base = 0, next = 3\<rparr>"
  by (simp add: RingBuf_Drop_def)

text \<open>
  Claim C5, amended. A successful \<^verbatim>\<open>Drop(p)\<close> sets the drop marker to \<open>p\<close>, whatever the
  marker was, and changes nothing else; it leaves the buffer unchanged exactly when \<open>p\<close> is
  the current marker. The marker is monotonic only as far as the callers' positions are.
\<close>

theorem Drop_assigns_marker:
  assumes "\<not> next b \<le> sint (p - base b)"
  shows "RingBuf_Drop b p = (b\<lparr>drop_mark := p\<rparr>, None)
         \<and> drop_mark (fst (RingBuf_Drop b p)) = p
         \<and> (fst (RingBuf_Drop b p) = b \<longleftrightarrow> p = drop_mark b)"
proof -
  have "b\<lparr>drop_mark := p\<rparr> = b \<longleftrightarrow> p = drop_mark b"
    by (cases b) auto
  with assms show ?thesis
    by (simp add: RingBuf_Drop_def)
qed

theorem Drop_assigns_marker_witness:
  "\<not> next \<lparr>drop_mark = 0, buf = [1, 2, 3 :: nat], base = 0, next = 3\<rparr>
        \<le> sint (2 - base \<lparr>drop_mark = 0, buf = [1, 2, 3 :: nat], base = 0, next = 3\<rparr>)
   \<and> RingBuf_Drop \<lparr>drop_mark = 0, buf = [1, 2, 3 :: nat], base = 0, next = 3\<rparr> 2
       = (\<lparr>drop_mark = 2, buf = [1, 2, 3], base = 0, next = 3\<rparr>, None)"
  using Drop_assigns_marker
    [of "\<lparr>drop_mark = 0, buf = [1, 2, 3 :: nat], base = 0, next = 3\<rparr>" 2]
  by simp

section \<open>Append\<close>

text \<open>
  Claim C1 says that a successful \<^verbatim>\<open>Append\<close> writes at slot \<open>(base + next) mod capacity\<close>
  and then increments \<^verbatim>\<open>next\<close> by 1. The source writes at \<^verbatim>\<open>b.next % size\<close> and stores
  that index plus 1. On the buffer \<^verbatim>\<open>NewRingBuf(3)\<close> returns (\<open>next = 3\<close>) the first append
  leaves \<open>next = 1\<close>, not 4; on the buffer of \<^verbatim>\<open>TestRingBufferAroundZero\<close> after its
  \<^verbatim>\<open>Drop(-5)\<close> (\<open>base = -4\<close>, \<open>next = 2\<close>) the item goes to slot 2, while
  \<open>(base + next) mod 3\<close> is 1.
\<close>

theorem Append_counterexample:
  "RingBuf_Append \<lparr>drop_mark = - 1, buf = [0, 0, 0 :: nat], base = - 3, next = 3\<rparr> 7
     = Inr (\<lparr>drop_mark = - 1, buf = [7, 0, 0], base = 0, next = 1\<rparr>, None)
   \<and> next \<lparr>drop_mark = - 1, buf = [7, 0, 0 :: nat], base = 0, next = 1\<rparr>
       \<noteq> next \<lparr>drop_mark = - 1, buf = [0, 0, 0 :: nat], base = - 3, next = 3\<rparr> + 1
   \<and> RingBuf_Append \<lparr>drop_mark = - 5, buf = [0, 0, 0 :: nat], base = - 4, next = 2\<rparr> 7
     = Inr (\<lparr>drop_mark = - 5, buf = [0, 0, 7], base = - 4, next = 3\<rparr>, None)
   \<and> [0, 0, 7 :: nat] \<noteq> [0, 0, 0][nat ((sint (- 4 :: Position) + 2) mod 3) := 7]"
  by (simp add: RingBuf_Append_def int64_def Let_def)

text \<open>
  Claim C1, amended. For a buffer with at least one slot and a non-negative \<^verbatim>\<open>next\<close>,
  \<^verbatim>\<open>Append\<close> fails with \<^verbatim>\<open>ErrBufferOverflow\<close>, leaving the buffer as it was, exactly when
  \<open>capacity < (base - drop) + next\<close> (the difference taken in 32 bits and read signed, the
  sum in 64 bits); otherwise it succeeds, writes the item at slot \<open>next mod capacity\<close>, adds
  the capacity to \<^verbatim>\<open>base\<close> when that slot is 0, and sets \<^verbatim>\<open>next\<close> to the slot plus 1.
\<close>

theorem Append_overflow_or_write:
  assumes "0 < length (buf b)" and "0 \<le> next b"
  shows "RingBuf_Append b item =
     (if int (length (buf b)) < int64 (sint (base b - drop_mark b) + next b)
      then Inr (b, Some ErrBufferOverflow)
      else Inr (b\<lparr>base := (if next b mod int (length (buf b)) = 0
                              then base b + word_of_int (int (length (buf b))) else base b),
                  buf := (buf b)[nat (next b mod int (length (buf b))) := item],
                  next := next b mod int (length (buf b)) + 1\<rparr>, None))"
proof -
  let ?sz = "int (length (buf b))"
  have sm: "next b smod ?sz = next b mod ?sz"
    using assms by (simp add: smod_mod_positive)
  have lo: "\<not> next b mod ?sz < 0" and hi: "\<not> ?sz \<le> next b mod ?sz"
    using assms by (simp_all add: not_less not_le)
  show ?thesis
    using assms by (simp add: RingBuf_Append_def Let_def sm lo hi)
qed

text \<open>
  With positions 0 to 2 written: after \<^verbatim>\<open>Drop(0)\<close> the append wraps to slot 0 and
  \<^verbatim>\<open>base\<close> becomes 3; with nothing dropped it overflows.
\<close>

theorem Append_overflow_or_write_witness:
  "RingBuf_Append \<lparr>drop_mark = 0, buf = [1, 2, 3 :: nat], base = 0, next = 3\<rparr> 4
     = Inr (\<lparr>drop_mark = 0, buf = [4, 2, 3], base = 3, next = 1\<rparr>, None)
   \<and> RingBuf_Append \<lparr>drop_mark = - 1, buf = [1, 2, 3 :: nat], base = 0, next = 3\<rparr> 4
     = Inr (\<lparr>drop_mark = - 1, buf = [1, 2, 3], base = 0, next = 3\<rparr>, Some ErrBufferOverflow)"
  using Append_overflow_or_write [of "\<lparr>drop_mark = 0, buf = [1, 2, 3 :: nat], base = 0, next = 3\<rparr>" 4]
    Append_overflow_or_write [of "\<lparr>drop_mark = - 1, buf = [1, 2, 3 :: nat], base = 0, next = 3\<rparr>" 4]
  by (simp add: int64_def)

section \<open>Range resolution\<close>

text \<open>
  Claim C2 compares \<open>offset\<close> with \<^verbatim>\<open>next\<close> itself, for every buffer state. The source
  compares it with \<^verbatim>\<open>Position(b.next)\<close>, which truncates to 32 bits. On the buffer that
  \<^verbatim>\<open>NewRingBuf(1 << 31)\<close> returns (\<open>next = 2 ^ 31\<close>, \<open>base = - 2 ^ 31\<close>), the start position
  \<open>base\<close> has offset 0, between 0 and \<^verbatim>\<open>next\<close>; but \<^verbatim>\<open>Position(b.next)\<close> is \<open>- 2 ^ 31\<close>, the first
  branch is not taken, \<open>base - start\<close> is 0, and \<^verbatim>\<open>iter\<close> fails with the out-of-range error.
\<close>

theorem iter_truncated_next_counterexample:
  "NewRingBuf (0 :: nat) 2147483648
     = Inr \<lparr>drop_mark = - 1, buf = replicate 2147483648 0, base = - 2147483648, next = 2147483648\<rparr>
   \<and> 0 \<le> sint ((- 2147483648 :: Position)
              - base \<lparr>drop_mark = - 1, buf = replicate 2147483648 (0 :: nat),
                      base = - 2147483648, next = 2147483648\<rparr>)
   \<and> sint ((- 2147483648 :: Position)
              - base \<lparr>drop_mark = - 1, buf = replicate 2147483648 (0 :: nat),
                      base = - 2147483648, next = 2147483648\<rparr>)
       \<le> next \<lparr>drop_mark = - 1, buf = replicate 2147483648 (0 :: nat),
                 base = - 2147483648, next = 2147483648\<rparr>
   \<and> RingBuf_iter \<lparr>drop_mark = - 1, buf = replicate 2147483648 (0 :: nat),
                     base = - 2147483648, next = 2147483648\<rparr> (- 2147483648)
     = Inr (NilSlice, NilSlice, Some (Errorf ErrOutOfRange (- 2147483648) (- 2147483648) 0))"
  by (simp add: NewRingBuf_def RingBuf_iter_def Let_def int64_def)

text \<open>
  Claim C2, amended. For a buffer whose \<^verbatim>\<open>next\<close> lies between 0 and the capacity and is
  below \<open>2 ^ 31\<close> (so that \<^verbatim>\<open>Position(b.next)\<close> is \<^verbatim>\<open>next\<close>), \<^verbatim>\<open>iter\<close> resolves a start position
  as follows, with \<open>offset = start - base\<close>: if \<open>0 \<le> offset \<le> next\<close>, the single segment
  \<^verbatim>\<open>buf[offset:next]\<close>; else if \<open>base - start > 0\<close> and \<open>next + (base - start) \<le> capacity\<close>,
  the two segments \<^verbatim>\<open>buf[capacity-(base-start):capacity]\<close> and \<^verbatim>\<open>buf[0:next]\<close>; otherwise
  the error that wraps \<^verbatim>\<open>ErrOutOfRange\<close> and reports \<open>bottom = base - (capacity - next)\<close>
  and \<open>upper = base + next\<close>. The differences of positions are 32-bit and read signed.
\<close>

theorem iter_resolves_range:
  assumes "0 \<le> next b" and "next b \<le> int (length (buf b))" and "next b < 2147483648"
  shows "RingBuf_iter b start =
     (if 0 \<le> sint (start - base b) \<and> sint (start - base b) \<le> next b
      then Inr (BufSlice (nat (sint (start - base b))) (nat (next b)), NilSlice, None)
      else if 0 < sint (base b - start) \<and> next b + sint (base b - start) \<le> int (length (buf b))
      then Inr (BufSlice (nat (int (length (buf b)) - sint (base b - start))) (length (buf b)),
                BufSlice 0 (nat (next b)), None)
      else Inr (NilSlice, NilSlice,
                Some (Errorf ErrOutOfRange start
                        (base b - word_of_int (int (length (buf b)) - next b))
                        (base b + word_of_int (next b)))))"
proof -
  have nx: "sint (word_of_int (next b) :: Position) = next b"
    using assms by (simp add: sint_Position_of_int_id)
  have wrap: "int64 (next b + sint (base b - start)) = next b + sint (base b - start)"
    using assms sint_Position_range [of "base b - start"] by (intro int64_id) linarith+
  show ?thesis
    using assms by (simp add: RingBuf_iter_def Let_def nx wrap slice_buf_def)
qed

text \<open>
  The buffer of \<^verbatim>\<open>TestRingBufferIterate\<close> (capacity 3, \<open>base = 3\<close>, \<open>next = 1\<close>): start 3
  is in the current generation, start 1 straddles the wrap point, start 0 is out of range
  and the error reports the bounds 1 and 4.
\<close>

theorem iter_resolves_range_witness:
  "RingBuf_iter \<lparr>drop_mark = 0, buf = [10, 20, 30 :: nat], base = 3, next = 1\<rparr> 3
     = Inr (BufSlice 0 1, NilSlice, None)
   \<and> RingBuf_iter \<lparr>drop_mark = 0, buf = [10, 20, 30 :: nat], base = 3, next = 1\<rparr> 1
     = Inr (BufSlice 1 3, BufSlice 0 1, None)
   \<and> RingBuf_iter \<lparr>drop_mark = 0, buf = [10, 20, 30 :: nat], base = 3, next = 1\<rparr> 0
     = Inr (NilSlice, NilSlice, Some (Errorf ErrOutOfRange 0 1 4))"
  using iter_resolves_range [of "\<lparr>drop_mark = 0, buf = [10, 20, 30 :: nat], base = 3, next = 1\<rparr>" 3]
    iter_resolves_range [of "\<lparr>drop_mark = 0, buf = [10, 20, 30 :: nat], base = 3, next = 1\<rparr>" 1]
    iter_resolves_range [of "\<lparr>drop_mark = 0, buf = [10, 20, 30 :: nat], base = 3, next = 1\<rparr>" 0]
  by simp

text \<open>
  Claim C3 puts the bottom of the window outside: reads would fail at \<open>start = bottom\<close>.
  They do not. On the buffer of \<^verbatim>\<open>TestRingBufferIterate\<close> (capacity 3, \<open>base = 3\<close>,
  \<open>next = 1\<close>) the bottom is 1, and \<^verbatim>\<open>ToSlice(1)\<close> and \<^verbatim>\<open>Iterator(1)\<close> succeed with the three
  items, as that test asserts.
\<close>

theorem window_bottom_counterexample:
  "range_bottom \<lparr>drop_mark = 0, buf = [10, 20, 30 :: nat], base = 3, next = 1\<rparr> = 1
   \<and> \<not> 0 < sint (1 - range_bottom \<lparr>drop_mark = 0, buf = [10, 20, 30 :: nat], base = 3, next = 1\<rparr>)
   \<and> RingBuf_ToSlice \<lparr>drop_mark = 0, buf = [10, 20, 30 :: nat], base = 3, next = 1\<rparr> 1
       = Inr (\<lparr>drop_mark = 0, buf = [10, 20, 30], base = 3, next = 1\<rparr>, NewSlice [20, 30, 10], None)
   \<and> RingBuf_Iterator \<lparr>drop_mark = 0, buf = [10, 20, 30 :: nat], base = 3, next = 1\<rparr> 1
       = Inr (Some (NewIterator [BufSlice 1 3, BufSlice 0 1]), None)"
  by (simp add: range_bottom_def RingBuf_ToSlice_def RingBuf_Iterator_def RingBuf_iter_def
      slice_buf_def go_append_def int64_def)

text \<open>
  Claim C3, amended. On a well-formed buffer, \<^verbatim>\<open>ToSlice(start)\<close> and \<^verbatim>\<open>Iterator(start)\<close> fail
  with an error that is \<^verbatim>\<open>ErrOutOfRange\<close> if and only if \<open>start\<close> lies outside the window from
  \<open>bottom = base - (capacity - next)\<close> to \<open>upper = base + next\<close>, both ends included. For
  every start inside, both succeed, \<^verbatim>\<open>ToSlice\<close> leaves the buffer as it was, draining the
  iterator gives the items \<^verbatim>\<open>ToSlice\<close> returns, and their number is \<open>base + next - start\<close>.
\<close>

theorem reads_fail_iff_outside_window:
  fixes b :: "'a RingBuf"
  assumes "well_formed b"
  shows "(in_window b start \<longrightarrow>
            (\<exists>s it s'. RingBuf_ToSlice b start = Inr (b, s, None)
               \<and> RingBuf_Iterator b start = Inr (Some it, None)
               \<and> Iterator_ToSlice (buf b) it = Inr s'
               \<and> slice_items (buf b) s' = slice_items (buf b) s
               \<and> slice_len s' = slice_len s
               \<and> slice_len s = length (slice_items (buf b) s)
               \<and> int (slice_len s) = sint (range_upper b - start)))
       \<and> (\<not> in_window b start \<longrightarrow>
            (\<exists>err. RingBuf_ToSlice b start = Inr (b, NilSlice, Some err)
               \<and> RingBuf_Iterator b start = Inr (None, Some err)
               \<and> errors_Is err ErrOutOfRange))"
proof (intro conjI impI)
  assume "in_window b start"
  with assms show "\<exists>s it s'. RingBuf_ToSlice b start = Inr (b, s, None)
               \<and> RingBuf_Iterator b start = Inr (Some it, None)
               \<and> Iterator_ToSlice (buf b) it = Inr s'
               \<and> slice_items (buf b) s' = slice_items (buf b) s
               \<and> slice_len s' = slice_len s
               \<and> slice_len s = length (slice_items (buf b) s)
               \<and> int (slice_len s) = sint (range_upper b - start)"
    by (rule read_in_window)
next
  assume "\<not> in_window b start"
  with assms have "RingBuf_iter b start
      = Inr (NilSlice, NilSlice, Some (Errorf ErrOutOfRange start (range_bottom b) (range_upper b)))"
    by (rule read_out_of_window)
  then show "\<exists>err. RingBuf_ToSlice b start = Inr (b, NilSlice, Some err)
               \<and> RingBuf_Iterator b start = Inr (None, Some err)
               \<and> errors_Is err ErrOutOfRange"
    by (simp add: RingBuf_ToSlice_def RingBuf_Iterator_def)
qed

text \<open>
  On the buffer of \<^verbatim>\<open>TestRingBufferIterate\<close>: start 1 is inside the window (three items),
  start 0 is outside.
\<close>

theorem reads_fail_iff_outside_window_witness:
  "well_formed \<lparr>drop_mark = 0, buf = [10, 20, 30 :: nat], base = 3, next = 1\<rparr>
   \<and> in_window \<lparr>drop_mark = 0, buf = [10, 20, 30 :: nat], base = 3, next = 1\<rparr> 1
   \<and> (\<exists>s. RingBuf_ToSlice \<lparr>drop_mark = 0, buf = [10, 20, 30 :: nat], base = 3, next = 1\<rparr> 1
           = Inr (\<lparr>drop_mark = 0, buf = [10, 20, 30 :: nat], base = 3, next = 1\<rparr>, s, None)
         \<and> slice_len s = 3)
   \<and> \<not> in_window \<lparr>drop_mark = 0, buf = [10, 20, 30 :: nat], base = 3, next = 1\<rparr> 0
   \<and> (\<exists>err. RingBuf_Iterator \<lparr>drop_mark = 0, buf = [10, 20, 30 :: nat], base = 3, next = 1\<rparr> 0
           = Inr (None, Some err)
         \<and> errors_Is err ErrOutOfRange)"
proof -
  let ?b = "\<lparr>drop_mark = 0, buf = [10, 20, 30 :: nat], base = 3, next = 1\<rparr>"
  have wf: "well_formed ?b"
    by (simp add: well_formed_def)
  have inside: "in_window ?b 1"
    by (simp add: in_window_def range_bottom_def range_upper_def)
  have outside: "\<not> in_window ?b 0"
    by (simp add: in_window_def range_bottom_def range_upper_def)
  have up: "sint (range_upper ?b - 1) = 3"
    by (simp add: range_upper_def)
  from reads_fail_iff_outside_window [OF wf, of 1] inside up
  have "\<exists>s. RingBuf_ToSlice ?b 1 = Inr (?b, s, None) \<and> slice_len s = 3"
    by auto
  moreover from reads_fail_iff_outside_window [OF wf, of 0] outside
  have "\<exists>err. RingBuf_Iterator ?b 0 = Inr (None, Some err) \<and> errors_Is err ErrOutOfRange"
    by auto
  ultimately show ?thesis
    using wf inside outside by blast
qed

text \<open>
  Claim C8. Reads do not depend on the drop marker: for two buffers that differ in
  \<^verbatim>\<open>drop\<close> only, \<^verbatim>\<open>iter\<close> and \<^verbatim>\<open>Iterator\<close> return the same, \<^verbatim>\<open>ToSlice\<close> returns the same
  slice and error (and leaves each buffer with its own marker), and any iterator or slice
  reads the same items from either. So a position that was dropped and is still in the
  array remains readable.
\<close>

theorem reads_ignore_drop_marker:
  "RingBuf_iter (b\<lparr>drop_mark := d\<rparr>) start = RingBuf_iter b start
   \<and> RingBuf_Iterator (b\<lparr>drop_mark := d\<rparr>) start = RingBuf_Iterator b start
   \<and> RingBuf_ToSlice (b\<lparr>drop_mark := d\<rparr>) start
       = map_sum id (\<lambda>(b', s, err). (b'\<lparr>drop_mark := d\<rparr>, s, err)) (RingBuf_ToSlice b start)
   \<and> Iterator_ToSlice (buf (b\<lparr>drop_mark := d\<rparr>)) it = Iterator_ToSlice (buf b) it
   \<and> slice_items (buf (b\<lparr>drop_mark := d\<rparr>)) s = slice_items (buf b) s"
proof -
  have it: "RingBuf_iter (b\<lparr>drop_mark := d\<rparr>) start = RingBuf_iter b start"
    by (simp add: RingBuf_iter_def Let_def cong: sum.case_cong)
  show ?thesis
    by (simp add: it RingBuf_Iterator_def RingBuf_ToSlice_def
        split: sum.splits prod.splits option.splits)
qed

text \<open>
  With positions 3 to 5 in the array and every one of them dropped (\<open>drop = 5\<close>),
  \<^verbatim>\<open>ToSlice(3)\<close> still returns the three items.
\<close>

theorem reads_ignore_drop_marker_witness:
  "RingBuf_ToSlice \<lparr>drop_mark = 5, buf = [4, 5, 6 :: nat], base = 3, next = 3\<rparr> 3
     = Inr (\<lparr>drop_mark = 5, buf = [4, 5, 6], base = 3, next = 3\<rparr>, BufSlice 0 3, None)
   \<and> slice_items [4, 5, 6 :: nat] (BufSlice 0 3) = [4, 5, 6]"
proof -
  have "RingBuf_ToSlice \<lparr>drop_mark = 2, buf = [4, 5, 6 :: nat], base = 3, next = 3\<rparr> 3
     = Inr (\<lparr>drop_mark = 2, buf = [4, 5, 6], base = 3, next = 3\<rparr>, BufSlice 0 3, None)"
    by (simp add: RingBuf_ToSlice_def RingBuf_iter_def slice_buf_def go_append_def)
  with reads_ignore_drop_marker
    [where b = "\<lparr>drop_mark = 2, buf = [4, 5, 6 :: nat], base = 3, next = 3\<rparr>"
       and d = 5 and start = 3]
  show ?thesis by simp
qed

section \<open>The constructor\<close>

text \<open>
  Claim C9 says that \<^verbatim>\<open>NewRingBuf(n)\<close> starts the drop marker strictly below \<^verbatim>\<open>base\<close>. The
  source sets \<^verbatim>\<open>drop: -1\<close> and \<^verbatim>\<open>base: Position(-size)\<close>: for \<open>n = 3\<close> the marker \<open>-1\<close> is
  above \<open>base = -3\<close>.
\<close>

theorem NewRingBuf_counterexample:
  "NewRingBuf (0 :: nat) 3 = Inr \<lparr>drop_mark = - 1, buf = [0, 0, 0], base = - 3, next = 3\<rparr>
   \<and> \<not> sint (drop_mark \<lparr>drop_mark = - 1, buf = [0, 0, 0 :: nat], base = - 3, next = 3\<rparr>)
        < sint (base \<lparr>drop_mark = - 1, buf = [0, 0, 0 :: nat], base = - 3, next = 3\<rparr>)"
  by (simp add: NewRingBuf_def numeral_3_eq_3)

text \<open>
  Claim C9, amended. For every capacity \<open>n\<close> from 1 to \<open>2 ^ 31\<close>, \<^verbatim>\<open>NewRingBuf(n)\<close> returns a
  buffer whose drop marker is \<open>-1\<close>: one below its write frontier \<open>base + next\<close>, which is
  position 0, so that nothing is dropped initially; \<^verbatim>\<open>base\<close> is \<open>- n\<close>, at or below the marker.
\<close>

theorem NewRingBuf_marker_below_frontier:
  assumes "0 < n" and "n \<le> 2147483648"
  shows "\<exists>b. NewRingBuf zero n = Inr b
           \<and> drop_mark b = base b + word_of_int (next b) - 1
           \<and> base b + word_of_int (next b) = 0
           \<and> sint (drop_mark b) = - 1
           \<and> sint (base b) = - n
           \<and> sint (base b) \<le> sint (drop_mark b)"
proof -
  have "sint (word_of_int (- n) :: Position) = - n"
    using assms by (intro sint_Position_of_int_id) linarith+
  with assms show ?thesis
    by (simp add: NewRingBuf_def)
qed

theorem NewRingBuf_marker_below_frontier_witness:
  "\<exists>b. NewRingBuf (0 :: nat) 3 = Inr b
           \<and> drop_mark b = base b + word_of_int (next b) - 1
           \<and> base b + word_of_int (next b) = 0
           \<and> sint (drop_mark b) = - 1
           \<and> sint (base b) = - 3
           \<and> sint (base b) \<le> sint (drop_mark b)"
  using NewRingBuf_marker_below_frontier [of 3 "0 :: nat"] by simp

section \<open>Translation of the position axis\<close>

text \<open>
  Every comparison of the source is made on a difference of two positions (or on \<^verbatim>\<open>next\<close>
  and lengths), so each call commutes with a translation of all positions by \<open>k\<close>.
\<close>

lemma sentinel_translate_error: "sentinel (translate_error k e) = sentinel e"
  by (induction e) simp_all

lemma Drop_translate:
  "RingBuf_Drop (translate k b) (p + k)
     = (translate k (fst (RingBuf_Drop b p)), snd (RingBuf_Drop b p))"
  by (simp add: RingBuf_Drop_def translate_def)

lemma Append_translate:
  "RingBuf_Append (translate k b) x
     = map_sum id (\<lambda>(b', err). (translate k b', err)) (RingBuf_Append b x)"
  by (simp add: RingBuf_Append_def translate_def Let_def add.commute add.left_commute)

lemma iter_translate:
  "RingBuf_iter (translate k b) (start + k)
     = map_sum id (\<lambda>(h, t, err). (h, t, map_option (translate_error k) err))
         (RingBuf_iter b start)"
  by (simp add: RingBuf_iter_def translate_def Let_def split: sum.splits)

lemma buf_translate: "buf (translate k b) = buf b"
  by (simp add: translate_def)

lemma ToSlice_translate:
  "RingBuf_ToSlice (translate k b) (start + k)
     = map_sum id (\<lambda>(b', s, err). (translate k b', s, map_option (translate_error k) err))
         (RingBuf_ToSlice b start)"
proof (cases "RingBuf_iter b start")
  case (Inl p)
  then show ?thesis
    by (simp add: RingBuf_ToSlice_def iter_translate)
next
  case (Inr r)
  obtain h t err where r: "r = (h, t, err)" by (cases r)
  have upd: "translate k b\<lparr>buf := mem\<rparr> = translate k (b\<lparr>buf := mem\<rparr>)" for mem
    by (simp add: translate_def)
  show ?thesis
    using Inr r
    by (cases err)
       (simp_all add: RingBuf_ToSlice_def iter_translate buf_translate upd split: prod.splits)
qed

lemma Iterator_translate:
  "RingBuf_Iterator (translate k b) (start + k)
     = map_sum id (\<lambda>(it, err). (it, map_option (translate_error k) err))
         (RingBuf_Iterator b start)"
  by (auto simp: RingBuf_Iterator_def iter_translate split: sum.splits option.splits prod.splits)

lemma step_translate:
  "step (translate k b) (shift k x)
     = map_sum id (\<lambda>(b', ob). (translate k b', ob)) (step b x)"
proof (cases x)
  case (OpAppend v)
  then show ?thesis
    by (auto simp: Append_translate split: sum.splits option.splits prod.splits)
next
  case (OpDrop p)
  then show ?thesis
    by (auto simp: Drop_translate split: sum.splits option.splits prod.splits)
next
  case (OpToSlice s)
  then show ?thesis
    by (auto simp: ToSlice_translate sentinel_translate_error
        split: sum.splits option.splits prod.splits)
next
  case (OpIterator s)
  then show ?thesis
    by (auto simp: Iterator_translate sentinel_translate_error buf_translate
        split: sum.splits option.splits prod.splits)
qed

text \<open>
  Claim C6. Position arithmetic is modular: for every buffer, every translation \<open>k\<close> of the
  position axis (modulo \<open>2 ^ 32\<close>) and every sequence of \<^verbatim>\<open>Append\<close>, \<^verbatim>\<open>Drop\<close>, \<^verbatim>\<open>ToSlice\<close> and
  \<^verbatim>\<open>Iterator\<close> calls, the translated buffer run on the translated calls gives the same
  successes, failures and numbers of items (and the same panic, if any) as the buffer run on
  the calls, and ends as the translated buffer. In particular a buffer whose \<^verbatim>\<open>base\<close> is near
  the largest position behaves as the same buffer near zero.
\<close>

theorem translation_invariance:
  "run (translate k b) (map (shift k) ops)
     = map_sum id (\<lambda>(b', obs). (translate k b', obs)) (run b ops)"
proof (induction ops arbitrary: b)
  case Nil
  show ?case by simp
next
  case (Cons x xs)
  show ?case
  proof (cases "step b x")
    case (Inl p)
    then show ?thesis by (simp add: step_translate)
  next
    case (Inr r)
    obtain b' ob where r: "r = (b', ob)" by (cases r)
    show ?thesis
      using Inr r Cons.IH [of b']
      by (auto simp: step_translate split: sum.splits)
  qed
qed

text \<open>
  The buffer of \<^verbatim>\<open>TestRingBufferWrapAround\<close> (\<open>base = 2 ^ 31 - 1\<close>) is the buffer of
  \<^verbatim>\<open>TestRingBufferIterate\<close> translated by \<open>2 ^ 31 - 4\<close>; the calls of its first
  \<^verbatim>\<open>checkAppendAndIterate\<close> cross the largest position.
\<close>

theorem translation_invariance_witness:
  "run \<lparr>drop_mark = 2147483644, buf = [10, 20, 30 :: nat], base = 2147483647, next = 1\<rparr>
      [OpAppend 40, OpDrop 2147483645, OpAppend 40, OpToSlice 2147483645,
       OpToSlice 2147483646, OpToSlice (- 2147483648), OpIterator (- 2147483647),
       OpToSlice (- 2147483646)]
     = Inr (\<lparr>drop_mark = 2147483645, buf = [10, 40, 30], base = 2147483647, next = 2\<rparr>,
            [Failed ErrBufferOverflow, Done, Done, Failed ErrOutOfRange,
             Items 3, Items 1, Items 0, Failed ErrOutOfRange])"
proof -
  have near_zero:
    "run \<lparr>drop_mark = 0, buf = [10, 20, 30 :: nat], base = 3, next = 1\<rparr>
        [OpAppend 40, OpDrop 1, OpAppend 40, OpToSlice 1, OpToSlice 2, OpToSlice 4,
         OpIterator 5, OpToSlice 6]
       = Inr (\<lparr>drop_mark = 1, buf = [10, 40, 30], base = 3, next = 2\<rparr>,
              [Failed ErrBufferOverflow, Done, Done, Failed ErrOutOfRange,
               Items 3, Items 1, Items 0, Failed ErrOutOfRange])"
    by code_simp
  have tr: "translate 2147483644 \<lparr>drop_mark = 0, buf = [10, 20, 30 :: nat], base = 3, next = 1\<rparr>
      = \<lparr>drop_mark = 2147483644, buf = [10, 20, 30 :: nat], base = 2147483647, next = 1\<rparr>"
    by (simp add: translate_def)
  have ops: "map (shift 2147483644)
        [OpAppend 40, OpDrop 1, OpAppend 40, OpToSlice 1, OpToSlice 2, OpToSlice 4,
         OpIterator 5, OpToSlice 6]
      = [OpAppend (40 :: nat), OpDrop 2147483645, OpAppend 40, OpToSlice 2147483645,
         OpToSlice 2147483646, OpToSlice (- 2147483648), OpIterator (- 2147483647),
         OpToSlice (- 2147483646)]"
    by simp
  show ?thesis
    using translation_invariance
      [of 2147483644 "\<lparr>drop_mark = 0, buf = [10, 20, 30 :: nat], base = 3, next = 1\<rparr>"
          "[OpAppend 40, OpDrop 1, OpAppend 40, OpToSlice 1, OpToSlice 2, OpToSlice 4,
            OpIterator 5, OpToSlice 6]"]
    unfolding tr ops near_zero
    by (simp add: translate_def)
qed

section \<open>The invariant of constructed buffers\<close>

text \<open>
  Whatever the start position, \<^verbatim>\<open>iter\<close> on a buffer with \<open>0 \<le> next \<le> capacity\<close> takes its
  sub-slices within the backing array: in the first branch \<^verbatim>\<open>begin\<close> is at most \<^verbatim>\<open>next\<close> even
  when \<^verbatim>\<open>Position(b.next)\<close> truncates, and in the second \<^verbatim>\<open>len(b.buf) - diff\<close> is not
  negative even when \<^verbatim>\<open>b.next+diff\<close> wraps at 64 bits. The \<^verbatim>\<open>append\<close> of \<^verbatim>\<open>ToSlice\<close> then never
  writes into the backing array: either the tail is \<^verbatim>\<open>nil\<close>, or the head ends where the
  array ends.
\<close>

lemma go_append_at_end:
  assumes "lo \<le> length mem"
  shows "fst (go_append mem (BufSlice lo (length mem)) t) = mem"
  by (cases "slice_items mem t = []") (simp_all add: go_append_def Let_def)

lemma iter_in_bounds:
  fixes b :: "'a RingBuf"
  assumes "0 \<le> next b" and "next b \<le> int (length (buf b))"
    and "int (length (buf b)) < 9223372036854775808"
  shows "\<exists>h t err. RingBuf_iter b start = Inr (h, t, err)
           \<and> slice_within (buf b) h \<and> slice_within (buf b) t
           \<and> fst (go_append (buf b) h t) = buf b"
proof -
  let ?cap = "int (length (buf b))"
  let ?begin = "sint (start - base b)" and ?diff = "sint (base b - start)"
  have rng: "- 2147483648 \<le> ?diff" "?diff < 2147483648"
    using sint_Position_range [of "base b - start"] by simp_all
  show ?thesis
  proof (cases "0 \<le> ?begin \<and> ?begin \<le> sint (word_of_int (next b) :: Position)")
    case True
    then have "0 \<le> sint (word_of_int (next b) :: Position)" by linarith
    with assms(1) have "sint (word_of_int (next b) :: Position) \<le> next b"
      by (rule sint_Position_of_int_le)
    with True have le: "?begin \<le> next b" by linarith
    have a: "nat ?begin \<le> nat (next b)" using True le by linarith
    have c: "nat (next b) \<le> length (buf b)" using assms by linarith
    have "RingBuf_iter b start = Inr (BufSlice (nat ?begin) (nat (next b)), NilSlice, None)"
      using True le assms by (simp add: RingBuf_iter_def Let_def slice_buf_def)
    moreover have "slice_within (buf b) (BufSlice (nat ?begin) (nat (next b)))"
      using a c by simp
    ultimately show ?thesis
      by (simp add: go_append_nil)
  next
    case False
    show ?thesis
    proof (cases "0 < ?diff \<and> int64 (next b + ?diff) \<le> ?cap")
      case True
      have room: "0 \<le> ?cap - ?diff"
      proof (cases "next b + ?diff < 9223372036854775808")
        case True
        then have "int64 (next b + ?diff) = next b + ?diff"
          using assms rng by (intro int64_id) linarith+
        with \<open>0 < ?diff \<and> int64 (next b + ?diff) \<le> ?cap\<close> assms show ?thesis by linarith
      next
        case False
        with assms rng show ?thesis by linarith
      qed
      let ?lo = "nat (?cap - ?diff)"
      have lo: "?lo \<le> length (buf b)" using room True by linarith
      have c: "nat (next b) \<le> length (buf b)" using assms by linarith
      have "RingBuf_iter b start
          = Inr (BufSlice ?lo (length (buf b)), BufSlice 0 (nat (next b)), None)"
        using False True room assms by (simp add: RingBuf_iter_def Let_def slice_buf_def)
      moreover have "slice_within (buf b) (BufSlice ?lo (length (buf b)))"
        using lo by simp
      moreover have "slice_within (buf b) (BufSlice 0 (nat (next b)))"
        using c by simp
      ultimately show ?thesis
        using go_append_at_end [OF lo] by blast
    next
      case no_wrap: False
      have "RingBuf_iter b start = Inr (NilSlice, NilSlice,
          Some (Errorf ErrOutOfRange start (range_bottom b) (range_upper b)))"
        by (simp only: RingBuf_iter_def Let_def if_not_P [OF False] if_not_P [OF no_wrap]
            range_bottom_def range_upper_def)
      then show ?thesis
        by (simp add: go_append_nil)
    qed
  qed
qed

lemma ToSlice_in_bounds:
  fixes b :: "'a RingBuf"
  assumes "0 \<le> next b" and "next b \<le> int (length (buf b))"
    and "int (length (buf b)) < 9223372036854775808"
  shows "\<exists>s err. RingBuf_ToSlice b start = Inr (b, s, err)"
proof -
  obtain h t err where it: "RingBuf_iter b start = Inr (h, t, err)"
    and same: "fst (go_append (buf b) h t) = buf b"
    using iter_in_bounds [OF assms] by blast
  obtain mem s where ga: "go_append (buf b) h t = (mem, s)"
    by (cases "go_append (buf b) h t")
  with same have "mem = buf b" by simp
  with it ga show ?thesis
    by (cases err) (simp_all add: RingBuf_ToSlice_def)
qed

lemma Iterator_in_bounds:
  fixes b :: "'a RingBuf"
  assumes "0 \<le> next b" and "next b \<le> int (length (buf b))"
    and "int (length (buf b)) < 9223372036854775808"
  shows "(\<exists>err. RingBuf_Iterator b start = Inr (None, Some err))
       \<or> (\<exists>it s. RingBuf_Iterator b start = Inr (Some it, None)
              \<and> Iterator_ToSlice (buf b) it = Inr s)"
proof -
  obtain h t err where it: "RingBuf_iter b start = Inr (h, t, err)"
    and within: "slice_within (buf b) h" "slice_within (buf b) t"
    using iter_in_bounds [OF assms] by blast
  show ?thesis
  proof (cases err)
    case None
    have "Iterator_ToSlice_loop (buf b) (NewIterator [h, t]) []
        = Inr (slice_items (buf b) h @ slice_items (buf b) t)"
      using within by (rule drain_two_segments)
    then have "\<exists>s. Iterator_ToSlice (buf b) (NewIterator [h, t]) = Inr s"
      by (simp add: Iterator_ToSlice_def)
    with it None show ?thesis
      by (simp add: RingBuf_Iterator_def)
  next
    case (Some e)
    with it show ?thesis
      by (simp add: RingBuf_Iterator_def)
  qed
qed

lemma Append_keeps_invariant:
  assumes "ring_invariant n b"
  shows "\<exists>b' err. RingBuf_Append b x = Inr (b', err) \<and> ring_invariant n b'"
proof -
  let ?sz = "int (length (buf b))"
  have inv: "1 \<le> next b" "next b \<le> ?sz" "?sz = n"
    using assms by (simp_all add: ring_invariant_def)
  have pos: "0 < ?sz" and nonneg: "0 \<le> next b"
    using inv by linarith+
  have sm: "next b smod ?sz = next b mod ?sz"
    using pos nonneg by (simp add: smod_mod_positive)
  have lo: "0 \<le> next b mod ?sz" and hi: "next b mod ?sz < ?sz"
    using pos by simp_all
  let ?b' = "b\<lparr>base := (if next b mod ?sz = 0 then base b + word_of_int ?sz else base b),
                buf := (buf b)[nat (next b mod ?sz) := x],
                next := next b mod ?sz + 1\<rparr>"
  have written: "ring_invariant n ?b'"
    using lo hi inv(3) by (simp add: ring_invariant_def)
  show ?thesis
  proof (cases "?sz < int64 (sint (base b - drop_mark b) + next b)")
    case True
    then have "RingBuf_Append b x = Inr (b, Some ErrBufferOverflow)"
      by (simp add: RingBuf_Append_def Let_def)
    with assms show ?thesis by blast
  next
    case False
    have "\<not> next b mod ?sz < 0" and "\<not> ?sz \<le> next b mod ?sz"
      using lo hi by linarith+
    with False pos have "RingBuf_Append b x = Inr (?b', None)"
      by (simp add: RingBuf_Append_def Let_def sm)
    with written show ?thesis by blast
  qed
qed

lemma step_keeps_invariant:
  fixes b :: "'a RingBuf"
  assumes "ring_invariant n b" and "n < 9223372036854775808"
  shows "\<exists>b' ob. step b x = Inr (b', ob) \<and> ring_invariant n b'"
proof -
  have bounds: "0 \<le> next b" "next b \<le> int (length (buf b))"
    "int (length (buf b)) < 9223372036854775808"
    using assms by (simp_all add: ring_invariant_def)
  show ?thesis
  proof (cases x)
    case (OpAppend v)
    obtain b' err where "RingBuf_Append b v = Inr (b', err)" "ring_invariant n b'"
      using Append_keeps_invariant [OF assms(1)] by blast
    with OpAppend show ?thesis by (cases err) simp_all
  next
    case (OpDrop p)
    with assms(1) show ?thesis
      by (simp add: RingBuf_Drop_def ring_invariant_def)
  next
    case (OpToSlice start)
    obtain s err where "RingBuf_ToSlice b start = Inr (b, s, err)"
      using ToSlice_in_bounds [OF bounds] by blast
    with OpToSlice assms(1) show ?thesis by (cases err) simp_all
  next
    case (OpIterator start)
    from Iterator_in_bounds [OF bounds, of start] OpIterator assms(1) show ?thesis
      by auto
  qed
qed

lemma run_keeps_invariant:
  fixes b :: "'a RingBuf"
  assumes "ring_invariant n b" and "n < 9223372036854775808"
  shows "\<exists>b' obs. run b ops = Inr (b', obs) \<and> ring_invariant n b'"
  using assms(1)
proof (induction ops arbitrary: b)
  case Nil
  then show ?case by simp
next
  case (Cons x xs)
  obtain b1 ob where s: "step b x = Inr (b1, ob)" and inv1: "ring_invariant n b1"
    using step_keeps_invariant [OF Cons.prems assms(2)] by blast
  obtain b' obs where "run b1 xs = Inr (b', obs)" "ring_invariant n b'"
    using Cons.IH [OF inv1] by blast
  with s show ?case by simp
qed

lemma NewRingBuf_invariant:
  assumes "0 < n"
  shows "\<exists>b. NewRingBuf zero n = Inr b \<and> ring_invariant n b"
proof -
  have "\<not> n < 0" using assms by linarith
  then have "NewRingBuf zero n = Inr \<lparr>drop_mark = - 1, buf = replicate (nat n) zero,
      base = word_of_int (- n), next = n\<rparr>"
    by (simp only: NewRingBuf_def if_False)
  moreover have "ring_invariant n \<lparr>drop_mark = - 1, buf = replicate (nat n) zero,
      base = word_of_int (- n), next = n\<rparr>"
    using assms by (simp add: ring_invariant_def)
  ultimately show ?thesis by blast
qed

text \<open>
  Claim C10. For every capacity \<open>n\<close> that is positive (and an \<^verbatim>\<open>int\<close> of Go), \<^verbatim>\<open>NewRingBuf(n)\<close>
  returns a buffer, and every sequence of \<^verbatim>\<open>Append\<close>, \<^verbatim>\<open>Drop\<close>, \<^verbatim>\<open>ToSlice\<close> and \<^verbatim>\<open>Iterator\<close>
  calls on it (each iterator drained by \<^verbatim>\<open>Iterator.ToSlice\<close>) runs to its end without a
  panic, so without an index or a slice bound out of range, and ends in a buffer with
  \<open>1 \<le> next \<le> n\<close> and \<open>n\<close> slots. Every state reachable from \<^verbatim>\<open>NewRingBuf(n)\<close> is the end of
  such a sequence.
\<close>

theorem reachable_buffers_stay_in_bounds:
  assumes "0 < n" and "n < 9223372036854775808"
  shows "\<exists>b0. NewRingBuf zero n = Inr b0
           \<and> (\<forall>ops. \<exists>b obs. run b0 ops = Inr (b, obs)
                  \<and> 1 \<le> next b \<and> next b \<le> n \<and> int (length (buf b)) = n)"
proof -
  from NewRingBuf_invariant [OF assms(1), of zero]
  obtain b0 where new: "NewRingBuf zero n = Inr b0" and inv0: "ring_invariant n b0"
    by (elim exE conjE)
  have "\<exists>b obs. run b0 ops = Inr (b, obs)
      \<and> 1 \<le> next b \<and> next b \<le> n \<and> int (length (buf b)) = n" for ops
  proof -
    from run_keeps_invariant [OF inv0 assms(2), of ops]
    obtain b obs where r: "run b0 ops = Inr (b, obs)" and inv: "ring_invariant n b"
      by (elim exE conjE)
    from inv have "1 \<le> next b \<and> next b \<le> n \<and> int (length (buf b)) = n"
      by (simp only: ring_invariant_def)
    with r show ?thesis
      by blast
  qed
  then have "\<forall>ops. \<exists>b obs. run b0 ops = Inr (b, obs)
      \<and> 1 \<le> next b \<and> next b \<le> n \<and> int (length (buf b)) = n"
    by (rule allI)
  with new show ?thesis
    by (intro exI conjI)
qed

text \<open>Capacity 3, and six calls that wrap the write cursor.\<close>

theorem reachable_buffers_stay_in_bounds_witness:
  "\<exists>b0. NewRingBuf (0 :: nat) 3 = Inr b0
      \<and> (\<exists>b obs. run b0 [OpAppend 1, OpAppend 2, OpIterator 0, OpDrop 1, OpAppend 3, OpToSlice 1]
              = Inr (b, obs)
            \<and> 1 \<le> next b \<and> next b \<le> 3 \<and> int (length (buf b)) = 3)"
proof -
  have "\<exists>b0. NewRingBuf (0 :: nat) 3 = Inr b0
      \<and> (\<forall>ops. \<exists>b obs. run b0 ops = Inr (b, obs)
             \<and> 1 \<le> next b \<and> next b \<le> 3 \<and> int (length (buf b)) = 3)"
    by (rule reachable_buffers_stay_in_bounds) simp_all
  then obtain b0 where new: "NewRingBuf (0 :: nat) 3 = Inr b0"
    and always: "\<forall>ops. \<exists>b obs. run b0 ops = Inr (b, obs)
             \<and> 1 \<le> next b \<and> next b \<le> 3 \<and> int (length (buf b)) = 3"
    by (elim exE conjE)
  from always have run3: "\<exists>b obs. run b0 [OpAppend 1, OpAppend 2, OpIterator 0, OpDrop 1, OpAppend 3, OpToSlice 1]
              = Inr (b, obs)
            \<and> 1 \<le> next b \<and> next b \<le> 3 \<and> int (length (buf b)) = 3"
    by (rule spec)
  from new run3
  have "NewRingBuf (0 :: nat) 3 = Inr b0
      \<and> (\<exists>b obs. run b0 [OpAppend 1, OpAppend 2, OpIterator 0, OpDrop 1, OpAppend 3, OpToSlice 1]
              = Inr (b, obs)
            \<and> 1 \<le> next b \<and> next b \<le> 3 \<and> int (length (buf b)) = 3)"
    by (rule conjI)
  then show ?thesis
    by (rule exI)
qed

section \<open>The synchronizing wrapper\<close>

text \<open>
  A read of the unsynchronized buffer can return a view of the backing array: here
  \<^verbatim>\<open>ToSlice(0)\<close> returns \<^verbatim>\<open>b.buf[0:3]\<close>, and after the next \<^verbatim>\<open>Append\<close> the same slice reads
  \<open>[4, 2, 3]\<close>.
\<close>

lemma unsynchronized_read_aliases:
  "RingBuf_ToSlice \<lparr>drop_mark = 0, buf = [1, 2, 3 :: nat], base = 0, next = 3\<rparr> 0
     = Inr (\<lparr>drop_mark = 0, buf = [1, 2, 3], base = 0, next = 3\<rparr>, BufSlice 0 3, None)
   \<and> RingBuf_Append \<lparr>drop_mark = 0, buf = [1, 2, 3 :: nat], base = 0, next = 3\<rparr> 4
     = Inr (\<lparr>drop_mark = 0, buf = [4, 2, 3], base = 3, next = 1\<rparr>, None)
   \<and> slice_items [1, 2, 3 :: nat] (BufSlice 0 3) = [1, 2, 3]
   \<and> slice_items [4, 2, 3 :: nat] (BufSlice 0 3) = [4, 2, 3]"
  by code_simp

text \<open>
  An owned slice reads the same whatever the backing array holds; an iterator over owned
  segments drains to the same items. What the wrapper returns is owned.
\<close>

lemma owned_items: "owned s \<Longrightarrow> slice_items mem s = slice_items mem' s"
  by (cases s) simp_all

lemma make_copy_owned: "owned (make_copy mem s)"
  by (simp add: make_copy_def)

lemma Scan_keeps_segments: "Iterator_Scan r = Inr (r', found) \<Longrightarrow> ss r' = ss r"
  by (auto simp: Iterator_Scan_def Let_def split: if_splits)

lemma Item_of_owned:
  assumes "list_all owned (ss r)"
  shows "Iterator_Item mem r = Iterator_Item mem' r"
proof (cases "slot r < 0 \<or> int (length (ss r)) \<le> slot r")
  case True
  then show ?thesis by (simp add: Iterator_Item_def)
next
  case False
  then have "nat (slot r) < length (ss r)" by linarith
  with assms have "owned (ss r ! nat (slot r))"
    by (simp add: list_all_length)
  then have "slice_items mem (ss r ! nat (slot r)) = slice_items mem' (ss r ! nat (slot r))"
    by (rule owned_items)
  then show ?thesis
    by (simp add: Iterator_Item_def Let_def)
qed

lemma drain_of_owned:
  "list_all owned (ss r) \<Longrightarrow>
   Iterator_ToSlice_loop mem r ret = Iterator_ToSlice_loop mem' r ret"
proof (induction mem r ret rule: Iterator_ToSlice_loop.induct)
  case (1 mem r ret)
  show ?case
  proof (cases "Iterator_Scan r")
    case (Inl p)
    then show ?thesis
      by (simp add: Iterator_ToSlice_loop.simps [of mem r] Iterator_ToSlice_loop.simps [of mem' r])
  next
    case (Inr x)
    obtain r' found where x: "x = (r', found)" by (cases x)
    have segs: "list_all owned (ss r')"
      using Scan_keeps_segments [of r r' found] Inr x "1.prems" by simp
    show ?thesis
    proof (cases found)
      case False
      with Inr x show ?thesis
        by (simp add: Iterator_ToSlice_loop.simps [of mem r] Iterator_ToSlice_loop.simps [of mem' r])
    next
      case True
      have item: "Iterator_Item mem r' = Iterator_Item mem' r'"
        using segs by (rule Item_of_owned)
      show ?thesis
      proof (cases "Iterator_Item mem r'")
        case (Inl p)
        with item have "Iterator_Item mem' r' = Inl p" by simp
        with Inr x True Inl show ?thesis
          by (simp add: Iterator_ToSlice_loop.simps [of mem r]
              Iterator_ToSlice_loop.simps [of mem' r])
      next
        case (Inr v)
        have "Iterator_ToSlice_loop mem r' (ret @ [v]) = Iterator_ToSlice_loop mem' r' (ret @ [v])"
          using "1.IH" [OF \<open>Iterator_Scan r = Inr x\<close> x [symmetric] True Inr segs] .
        moreover from item Inr have "Iterator_Item mem' r' = Inr v" by simp
        ultimately show ?thesis
          using \<open>Iterator_Scan r = Inr x\<close> x True Inr
          by (simp add: Iterator_ToSlice_loop.simps [of mem r]
              Iterator_ToSlice_loop.simps [of mem' r])
      qed
    qed
  qed
qed

lemma SyncBuf_ToSlice_owned:
  assumes "SyncBuf_ToSlice c start = Inr (c', s, err)"
  shows "owned s"
  using assms
  by (auto simp: SyncBuf_ToSlice_def make_copy_def split: sum.splits prod.splits option.splits)

lemma SyncBuf_ToSlice_copies:
  assumes "SyncBuf_ToSlice c start = Inr (c', s, None)"
  shows "\<exists>b' items. RingBuf_ToSlice (sync_buf c) start = Inr (b', items, None)
           \<and> sync_buf c' = b' \<and> s = NewSlice (slice_items (buf b') items)"
  using assms
  by (auto simp: SyncBuf_ToSlice_def make_copy_def split: sum.splits prod.splits option.splits)

lemma SyncBuf_Iterator_owned:
  assumes "SyncBuf_Iterator c start = Inr (Some it, err)"
  shows "list_all owned (ss it)"
  using assms
  by (auto simp: SyncBuf_Iterator_def NewIterator_def make_copy_def list_all_iff
      split: sum.splits prod.splits option.splits)

text \<open>
  The segments \<^verbatim>\<open>iter\<close> returns lie within the backing array, whatever the buffer: each
  comes from a slice expression that passed its bounds check. So draining the copies of
  the two segments, against any memory, gives what draining the segments themselves gives
  at the time of the copy.
\<close>

lemma iter_segments_within:
  assumes "RingBuf_iter b start = Inr (h, t, None)"
  shows "slice_within (buf b) h \<and> slice_within (buf b) t"
  using assms
  by (auto simp: RingBuf_iter_def Let_def slice_buf_def split: if_splits)

lemma drain_of_copies:
  assumes "slice_within mem h" and "slice_within mem t"
  shows "Iterator_ToSlice mem' (NewIterator (map (make_copy mem) [h, t]))
     = Iterator_ToSlice mem (NewIterator [h, t])"
proof -
  have "Iterator_ToSlice_loop mem (NewIterator [h, t]) []
      = Inr (slice_items mem h @ slice_items mem t)"
    using assms by (rule drain_two_segments)
  moreover have "Iterator_ToSlice_loop mem' (NewIterator [make_copy mem h, make_copy mem t]) []
      = Inr (slice_items mem' (make_copy mem h) @ slice_items mem' (make_copy mem t))"
    by (rule drain_two_segments) (simp_all add: make_copy_def)
  ultimately show ?thesis
    by (simp add: Iterator_ToSlice_def make_copy_def)
qed

lemma SyncBuf_Iterator_copies:
  assumes "SyncBuf_Iterator c start = Inr (Some it, None)"
  shows "\<exists>it0. RingBuf_Iterator (sync_buf c) start = Inr (Some it0, None)
           \<and> it = NewIterator (map (make_copy (buf (sync_buf c))) (ss it0))"
  using assms
  by (auto simp: SyncBuf_Iterator_def split: sum.splits prod.splits option.splits)

lemma RingBuf_Iterator_segments:
  assumes "RingBuf_Iterator b start = Inr (Some it0, None)"
  shows "\<exists>h t. it0 = NewIterator [h, t] \<and> slice_within (buf b) h \<and> slice_within (buf b) t"
proof -
  from assms obtain h t where it: "RingBuf_iter b start = Inr (h, t, None)"
    and eq: "it0 = NewIterator [h, t]"
    by (auto simp: RingBuf_Iterator_def split: sum.splits prod.splits option.splits)
  from iter_segments_within [OF it] eq show ?thesis by blast
qed

text \<open>
  Claim C7. What \<^verbatim>\<open>SyncBuf.ToSlice\<close> and \<^verbatim>\<open>SyncBuf.Iterator\<close> return is a copy over newly
  allocated arrays that never aliases the backing array of the wrapped buffer.
  \<^item> The slice \<^verbatim>\<open>SyncBuf.ToSlice\<close> returns is owned, holds what the wrapped \<^verbatim>\<open>ToSlice\<close>
    returned at the time of the call, and reads the same after any sequence of later calls
    on the wrapper (\<^verbatim>\<open>Append\<close> and \<^verbatim>\<open>Drop\<close> among them).
  \<^item> The iterator \<^verbatim>\<open>SyncBuf.Iterator\<close> returns has owned segments only, as many as the
    iterator of the wrapped buffer and with the cursor at the same start; after any sequence
    of later calls its segments hold what the wrapped iterator's segments held at the time
    of the call, and draining it gives what draining the wrapped iterator gave then.
  \<^item> Whenever the wrapped \<^verbatim>\<open>ToSlice\<close> or \<^verbatim>\<open>Iterator\<close> succeeds, so does the wrapper's, with
    the copy of the slice, or of each segment in order.
\<close>

theorem wrapper_results_do_not_alias:
  "(SyncBuf_ToSlice c start = Inr (c1, s, None) \<and> sync_run c1 ops = Inr c2 \<longrightarrow>
      owned s
      \<and> slice_items (buf (sync_buf c2)) s = slice_items (buf (sync_buf c1)) s
      \<and> (\<exists>items. RingBuf_ToSlice (sync_buf c) start = Inr (sync_buf c1, items, None)
            \<and> slice_items (buf (sync_buf c2)) s = slice_items (buf (sync_buf c1)) items))
   \<and> (SyncBuf_Iterator c start = Inr (Some it, None) \<and> sync_run c ops = Inr c2 \<longrightarrow>
      list_all owned (ss it)
      \<and> map (slice_items (buf (sync_buf c2))) (ss it) = map (slice_items (buf (sync_buf c))) (ss it)
      \<and> Iterator_ToSlice (buf (sync_buf c2)) it = Iterator_ToSlice (buf (sync_buf c)) it
      \<and> (\<exists>it0. RingBuf_Iterator (sync_buf c) start = Inr (Some it0, None)
            \<and> length (ss it) = length (ss it0) \<and> slot it = slot it0 \<and> idx it = idx it0
            \<and> map (slice_items (buf (sync_buf c2))) (ss it)
                = map (slice_items (buf (sync_buf c))) (ss it0)
            \<and> Iterator_ToSlice (buf (sync_buf c2)) it
                = Iterator_ToSlice (buf (sync_buf c)) it0))
   \<and> (RingBuf_ToSlice (sync_buf c) start = Inr (b', items0, None) \<longrightarrow>
      SyncBuf_ToSlice c start
        = Inr (c\<lparr>sync_buf := b'\<rparr>, NewSlice (slice_items (buf b') items0), None))
   \<and> (RingBuf_Iterator (sync_buf c) start = Inr (Some it1, None) \<longrightarrow>
      SyncBuf_Iterator c start
        = Inr (Some (NewIterator
                 (map (\<lambda>seg. NewSlice (slice_items (buf (sync_buf c)) seg)) (ss it1))), None))"
proof (intro conjI impI)
  assume a: "SyncBuf_ToSlice c start = Inr (c1, s, None) \<and> sync_run c1 ops = Inr c2"
  then show "owned s"
    using SyncBuf_ToSlice_owned by blast
  then show "slice_items (buf (sync_buf c2)) s = slice_items (buf (sync_buf c1)) s"
    by (rule owned_items)
  from a SyncBuf_ToSlice_copies [of c start c1 s]
  show "\<exists>items. RingBuf_ToSlice (sync_buf c) start = Inr (sync_buf c1, items, None)
            \<and> slice_items (buf (sync_buf c2)) s = slice_items (buf (sync_buf c1)) items"
    by auto
next
  assume a: "SyncBuf_Iterator c start = Inr (Some it, None) \<and> sync_run c ops = Inr c2"
  then show segs: "list_all owned (ss it)"
    using SyncBuf_Iterator_owned by blast
  then show "map (slice_items (buf (sync_buf c2))) (ss it)
      = map (slice_items (buf (sync_buf c))) (ss it)"
    by (auto simp: list_all_iff intro: owned_items)
  from segs show "Iterator_ToSlice (buf (sync_buf c2)) it = Iterator_ToSlice (buf (sync_buf c)) it"
    by (simp add: Iterator_ToSlice_def drain_of_owned [of it "buf (sync_buf c2)" _ "buf (sync_buf c)"])
  from a obtain it0 where r: "RingBuf_Iterator (sync_buf c) start = Inr (Some it0, None)"
    and it: "it = NewIterator (map (make_copy (buf (sync_buf c))) (ss it0))"
    using SyncBuf_Iterator_copies by blast
  from RingBuf_Iterator_segments [OF r]
  obtain h t where it0: "it0 = NewIterator [h, t]"
    and within: "slice_within (buf (sync_buf c)) h" "slice_within (buf (sync_buf c)) t"
    by blast
  have drained: "Iterator_ToSlice (buf (sync_buf c2)) it = Iterator_ToSlice (buf (sync_buf c)) it0"
    using drain_of_copies [OF within, of "buf (sync_buf c2)"]
    by (simp add: it it0 NewIterator_def)
  have held: "map (slice_items (buf (sync_buf c2))) (ss it)
      = map (slice_items (buf (sync_buf c))) (ss it0)"
    by (simp add: it it0 NewIterator_def make_copy_def)
  have shape: "length (ss it) = length (ss it0)" "slot it = slot it0" "idx it = idx it0"
    by (simp_all add: it it0 NewIterator_def)
  from r shape held drained
  show "\<exists>it0. RingBuf_Iterator (sync_buf c) start = Inr (Some it0, None)
            \<and> length (ss it) = length (ss it0) \<and> slot it = slot it0 \<and> idx it = idx it0
            \<and> map (slice_items (buf (sync_buf c2))) (ss it)
                = map (slice_items (buf (sync_buf c))) (ss it0)
            \<and> Iterator_ToSlice (buf (sync_buf c2)) it
                = Iterator_ToSlice (buf (sync_buf c)) it0"
    by blast
next
  assume "RingBuf_ToSlice (sync_buf c) start = Inr (b', items0, None)"
  then show "SyncBuf_ToSlice c start
        = Inr (c\<lparr>sync_buf := b'\<rparr>, NewSlice (slice_items (buf b') items0), None)"
    by (simp add: SyncBuf_ToSlice_def make_copy_def)
next
  assume "RingBuf_Iterator (sync_buf c) start = Inr (Some it1, None)"
  then show "SyncBuf_Iterator c start
        = Inr (Some (NewIterator
                 (map (\<lambda>seg. NewSlice (slice_items (buf (sync_buf c)) seg)) (ss it1))), None)"
    by (simp add: SyncBuf_Iterator_def make_copy_def [abs_def])
qed

text \<open>
  On the buffer of \<^verbatim>\<open>TestRingBufferIterate\<close>, wrapped: \<^verbatim>\<open>ToSlice(1)\<close> and \<^verbatim>\<open>Iterator(1)\<close>
  return copies of the two segments. After \<^verbatim>\<open>Drop(1)\<close> and an \<^verbatim>\<open>Append\<close> that overwrites slot
  1, the copied slice and the drained copied iterator still give \<open>[20, 30, 10]\<close>, while the
  iterator of the unsynchronized buffer, drained now, gives \<open>[40, 30, 10]\<close>.
\<close>

theorem wrapper_results_do_not_alias_witness:
  "SyncBuf_ToSlice \<lparr>sync_buf = \<lparr>drop_mark = 0, buf = [10, 20, 30 :: nat], base = 3, next = 1\<rparr>\<rparr> 1
     = Inr (\<lparr>sync_buf = \<lparr>drop_mark = 0, buf = [10, 20, 30], base = 3, next = 1\<rparr>\<rparr>,
            NewSlice [20, 30, 10], None)
   \<and> SyncBuf_Iterator \<lparr>sync_buf = \<lparr>drop_mark = 0, buf = [10, 20, 30 :: nat], base = 3, next = 1\<rparr>\<rparr> 1
     = Inr (Some \<lparr>ss = [NewSlice [20, 30], NewSlice [10]], slot = 0, idx = - 1\<rparr>, None)
   \<and> sync_run \<lparr>sync_buf = \<lparr>drop_mark = 0, buf = [10, 20, 30 :: nat], base = 3, next = 1\<rparr>\<rparr>
        [OpDrop 1, OpAppend 40]
     = Inr \<lparr>sync_buf = \<lparr>drop_mark = 1, buf = [10, 40, 30], base = 3, next = 2\<rparr>\<rparr>
   \<and> slice_items [10, 40, 30] (NewSlice [20, 30, 10 :: nat]) = [20, 30, 10]
   \<and> Iterator_ToSlice [10, 40, 30 :: nat]
        \<lparr>ss = [NewSlice [20, 30], NewSlice [10]], slot = 0, idx = - 1\<rparr>
     = Inr (NewSlice [20, 30, 10])
   \<and> Iterator_ToSlice [10, 40, 30 :: nat] \<lparr>ss = [BufSlice 1 3, BufSlice 0 1], slot = 0, idx = - 1\<rparr>
     = Inr (NewSlice [40, 30, 10])"
proof -
  let ?b = "\<lparr>drop_mark = 0, buf = [10, 20, 30 :: nat], base = 3, next = 1\<rparr>"
  let ?c = "\<lparr>sync_buf = ?b\<rparr>"
  let ?after = "\<lparr>sync_buf = \<lparr>drop_mark = 1, buf = [10, 40, 30 :: nat], base = 3, next = 2\<rparr>\<rparr>"
  let ?it = "\<lparr>ss = [NewSlice [20, 30], NewSlice [10 :: nat]], slot = 0, idx = - 1\<rparr>"
  let ?view = "\<lparr>ss = [BufSlice 1 3, BufSlice 0 1 :: nat slice], slot = 0, idx = - 1\<rparr>"
  have rd: "SyncBuf_ToSlice ?c 1 = Inr (?c, NewSlice [20, 30, 10], None)"
    by code_simp
  have itr: "SyncBuf_Iterator ?c 1 = Inr (Some ?it, None)"
    by (simp add: SyncBuf_Iterator_def RingBuf_Iterator_def RingBuf_iter_def slice_buf_def
        int64_def NewIterator_def make_copy_def)
  have wr: "sync_run ?c [OpDrop 1, OpAppend 40] = Inr ?after"
    by code_simp
  have itr0: "RingBuf_Iterator ?b 1 = Inr (Some ?view, None)"
    by (simp add: RingBuf_Iterator_def RingBuf_iter_def slice_buf_def int64_def NewIterator_def)
  have before: "Iterator_ToSlice [10, 20, 30 :: nat] ?view = Inr (NewSlice [20, 30, 10])"
    by (simp add: Iterator_ToSlice_def Iterator_ToSlice_loop.simps Iterator_Scan_def
        Iterator_Item_def Let_def)
  have stale: "Iterator_ToSlice [10, 40, 30 :: nat] ?view = Inr (NewSlice [40, 30, 10])"
    by (simp add: Iterator_ToSlice_def Iterator_ToSlice_loop.simps Iterator_Scan_def
        Iterator_Item_def Let_def)
  have called: "SyncBuf_Iterator ?c 1 = Inr (Some ?it, None)
      \<and> sync_run ?c [OpDrop 1, OpAppend 40] = Inr ?after"
    using itr wr by (rule conjI)
  note copied = wrapper_results_do_not_alias
    [where c = ?c and start = 1 and ops = "[OpDrop 1, OpAppend 40]" and ?c2.0 = ?after
       and it = ?it, THEN conjunct2, THEN conjunct1, rule_format, OF called]
  then obtain raw where raw: "RingBuf_Iterator (sync_buf ?c) 1 = Inr (Some raw, None)"
    and same: "Iterator_ToSlice (buf (sync_buf ?after)) ?it
        = Iterator_ToSlice (buf (sync_buf ?c)) raw"
    by (elim conjE exE)
  from raw itr0 have "raw = ?view" by simp
  with same before
  have "Iterator_ToSlice [10, 40, 30 :: nat] ?it = Inr (NewSlice [20, 30, 10])"
    by simp
  with rd itr wr stale show ?thesis by simp
qed

end
